theory Spec2Isabelle
  imports Complex_Main "HOL-Library.Sublist" "HOL-Library.Product_Lexorder"
begin

section \<open>Errors, numbers and external collaborators\<close>

text \<open>
  Every exception the module can raise is a value. The first two are the
  \<^verbatim>\<open>ValueError\<close>s raised by \<^verbatim>\<open>get_ctx_scores\<close> itself
  (\<^verbatim>\<open>Invalid question mode\<close>, \<^verbatim>\<open>Invalid mode\<close>); the next two are the
  \<^verbatim>\<open>ValueError\<close>s numpy raises for \<^verbatim>\<open>max\<close> of an empty array and for
  \<^verbatim>\<open>concatenate\<close> of an empty list. The last two are raised by \<^verbatim>\<open>int\<close> on
  a float that is infinite (also by the conversion of an integer that is too
  large for a float) or \<^verbatim>\<open>nan\<close>.
\<close>

datatype py_error =
    InvalidQuestionMode
  | InvalidMode
  | ZeroSizeReduction
  | EmptyConcatenate
  | IndexError
  | KeyError
  | AssertionError
  | OverflowError
  | ValueError

text \<open>
  Token scores are exact rationals: rounding and overflow of the doubles are
  not modelled. The values numpy produces outside the finite numbers are kept:
  the mean of an empty selection is \<^verbatim>\<open>nan\<close>, a division by a zero sum is
  \<^verbatim>\<open>nan\<close> or an infinity (the zero sum is taken as \<^verbatim>\<open>+0.0\<close>).
\<close>

datatype fl = Fin rat | PInf | NInf | NaN

fun fl_add :: "fl \<Rightarrow> fl \<Rightarrow> fl" where
  "fl_add NaN _ = NaN"
| "fl_add _ NaN = NaN"
| "fl_add PInf NInf = NaN"
| "fl_add NInf PInf = NaN"
| "fl_add PInf _ = PInf"
| "fl_add _ PInf = PInf"
| "fl_add NInf _ = NInf"
| "fl_add _ NInf = NInf"
| "fl_add (Fin a) (Fin b) = Fin (a + b)"

fun fl_div :: "fl \<Rightarrow> fl \<Rightarrow> fl" where
  "fl_div NaN _ = NaN"
| "fl_div _ NaN = NaN"
| "fl_div (Fin a) (Fin b) =
     (if b = 0 then (if a = 0 then NaN else if 0 < a then PInf else NInf)
      else Fin (a / b))"
| "fl_div (Fin a) _ = Fin 0"
| "fl_div PInf (Fin b) = (if 0 \<le> b then PInf else NInf)"
| "fl_div NInf (Fin b) = (if 0 \<le> b then NInf else PInf)"
| "fl_div _ _ = NaN"

text \<open>\<^verbatim>\<open>x > t\<close> for a finite threshold \<^verbatim>\<open>t\<close>: false on \<^verbatim>\<open>nan\<close>.\<close>

fun fl_gt :: "fl \<Rightarrow> rat \<Rightarrow> bool" where
  "fl_gt (Fin a) t = (t < a)"
| "fl_gt PInf t = True"
| "fl_gt NInf t = False"
| "fl_gt NaN t = False"

text \<open>The order numpy sorts by: \<^verbatim>\<open>-inf\<close>, the finite values, \<^verbatim>\<open>inf\<close>, then \<^verbatim>\<open>nan\<close>.\<close>

fun fl_key :: "fl \<Rightarrow> nat \<times> rat" where
  "fl_key NInf = (0, 0)"
| "fl_key (Fin a) = (1, a)"
| "fl_key PInf = (2, 0)"
| "fl_key NaN = (3, 0)"

text \<open>
  \<^verbatim>\<open>np.argsort\<close>: the indices in ascending order of their values. Equal values
  keep their input order here (numpy's default sort leaves the order of ties
  open; no theorem below depends on it).
\<close>

definition argsort :: "fl list \<Rightarrow> nat list" where
  "argsort xs = sort_key (\<lambda>i. fl_key (xs ! i)) [0..<length xs]"

definition np_sum :: "fl list \<Rightarrow> fl" where
  "np_sum xs = foldl fl_add (Fin 0) xs"

fun cumsum_from :: "fl \<Rightarrow> fl list \<Rightarrow> fl list" where
  "cumsum_from acc [] = []"
| "cumsum_from acc (x # xs) = fl_add acc x # cumsum_from (fl_add acc x) xs"

definition np_cumsum :: "fl list \<Rightarrow> fl list" where
  "np_cumsum xs = (case xs of [] \<Rightarrow> [] | x # rest \<Rightarrow> x # cumsum_from x rest)"

text \<open>Python slices \<^verbatim>\<open>xs[:k]\<close>, \<^verbatim>\<open>xs[k:]\<close> and \<^verbatim>\<open>xs[a:b]\<close>, negative bounds counted from the end.\<close>

definition py_bound :: "int \<Rightarrow> 'a list \<Rightarrow> nat" where
  "py_bound k xs = (if k < 0 then nat (int (length xs) + k) else nat k)"

definition py_slice_to :: "int \<Rightarrow> 'a list \<Rightarrow> 'a list" where
  "py_slice_to k xs = take (py_bound k xs) xs"

definition py_slice_from :: "int \<Rightarrow> 'a list \<Rightarrow> 'a list" where
  "py_slice_from k xs = drop (py_bound k xs) xs"

definition py_slice :: "int \<Rightarrow> int \<Rightarrow> 'a list \<Rightarrow> 'a list" where
  "py_slice a b xs = drop (py_bound a xs) (take (py_bound b xs) xs)"

text \<open>
  The collaborators the module calls and does not define: the scoring
  tokenizer (\<^verbatim>\<open>encode\<close> with \<^verbatim>\<open>add_special_tokens=False\<close>; \<^verbatim>\<open>batch_encode_plus\<close>
  is \<^verbatim>\<open>encode\<close> on every element; \<^verbatim>\<open>decode\<close>), the length tokenizer
  \<^verbatim>\<open>GPT_TOKENIZER\<close>, nltk's \<^verbatim>\<open>sent_tokenize\<close>, the table \<^verbatim>\<open>_dict_wo_instruction\<close>
  of prompt templates (a template applied to the compressed prompt and the
  question), and the floating-point formula of the adaptive sentence budgets.
\<close>

record env =
  tok_encode :: "string \<Rightarrow> int list"
  tok_decode :: "int list \<Rightarrow> string"
  gpt_encode :: "string \<Rightarrow> int list"
  sent_tokenize :: "string \<Rightarrow> string list"
  dict_wo_instruction :: "string \<Rightarrow> (string \<Rightarrow> string \<Rightarrow> string) option"
  adaptive_comp_len :: "fl list \<Rightarrow> rat \<Rightarrow> int \<Rightarrow> int list"

text \<open>A passage: the dictionary \<^verbatim>\<open>ctx\<close> with its keys \<^verbatim>\<open>text\<close>, \<^verbatim>\<open>title\<close>, \<^verbatim>\<open>org_idx\<close>, \<^verbatim>\<open>ctx_score\<close>.\<close>

record ctx =
  ctx_text :: string
  title :: "string option"
  org_idx :: int
  ctx_score :: "fl option"

record args =
  do_sort_ctx :: bool
  ctx_score_mode :: string
  question_mode :: string
  include_end_token :: bool
  dataset :: string
  comp_sent :: bool

section \<open>Score alignment and passage scores\<close>

definition str_of_title :: "string option \<Rightarrow> string" where
  "str_of_title t = (case t of None \<Rightarrow> ''None'' | Some s \<Rightarrow> s)"

definition get_ctx_start_indices ::
  "env \<Rightarrow> string \<Rightarrow> string option list \<Rightarrow> string \<Rightarrow> py_error + nat list" where
  "get_ctx_start_indices tokenizer question titles pattern_str =
     (case titles of
        [] \<Rightarrow> Inl IndexError
      | t0 # _ \<Rightarrow>
          (let len_pattern = length (tok_encode tokenizer pattern_str) in
           if t0 \<noteq> None then
             (if list_ex (\<lambda>t. t = None) titles then Inl AssertionError
              else Inr (map (\<lambda>t. length (tok_encode tokenizer
                          (''question: '' @ question @ '' title: '' @ str_of_title t)) + len_pattern)
                        titles))
           else
             (if list_ex (\<lambda>t. t \<noteq> None) titles then Inl AssertionError
              else Inr (map (\<lambda>_. length (py_slice_from (- 252)
                          (tok_encode tokenizer (''question: '' @ question))) + len_pattern)
                        titles))))"

text \<open>The rows \<^verbatim>\<open>batch_scores_ctxs\<close> that the aggregation runs over.\<close>

definition batch_scores_ctxs ::
  "env \<Rightarrow> rat list list \<Rightarrow> string \<Rightarrow> string \<Rightarrow> string option list \<Rightarrow> string
     \<Rightarrow> py_error + rat list list" where
  "batch_scores_ctxs tokenizer batch_scores qmode question titles pattern_str =
     (if qmode = ''include'' then Inr batch_scores
      else if qmode = ''exclude'' then
        (case get_ctx_start_indices tokenizer question titles pattern_str of
           Inl e \<Rightarrow> Inl e
         | Inr ctx_start_indices \<Rightarrow>
             Inr (map (\<lambda>(batch_score, ctx_start_idx). drop ctx_start_idx batch_score)
                      (zip batch_scores ctx_start_indices)))
      else Inl InvalidQuestionMode)"

text \<open>\<^verbatim>\<open>scores[scores != 0][:end]\<close> with \<^verbatim>\<open>end = None\<close> or \<^verbatim>\<open>end = -1\<close>.\<close>

definition nonzero_upto_end :: "bool \<Rightarrow> rat list \<Rightarrow> rat list" where
  "nonzero_upto_end iet scores =
     (let nz = filter (\<lambda>x. x \<noteq> 0) scores in if iet then nz else py_slice_to (- 1) nz)"

definition np_mean :: "rat list \<Rightarrow> fl" where
  "np_mean xs = (if xs = [] then NaN else Fin (sum_list xs / of_nat (length xs)))"

definition np_max :: "rat list \<Rightarrow> py_error + fl" where
  "np_max xs = (case xs of [] \<Rightarrow> Inl ZeroSizeReduction | x # rest \<Rightarrow> Inr (Fin (fold max rest x)))"

definition ctx_score_of :: "string \<Rightarrow> bool \<Rightarrow> rat list \<Rightarrow> py_error + fl" where
  "ctx_score_of mode iet scores =
     (if mode = ''mean'' then Inr (np_mean (nonzero_upto_end iet scores))
      else if mode = ''max'' then np_max (nonzero_upto_end iet scores)
      else if mode = ''sum'' then Inr (Fin (sum_list (nonzero_upto_end iet scores)))
      else Inl InvalidMode)"

fun ctx_scores_loop :: "string \<Rightarrow> bool \<Rightarrow> rat list list \<Rightarrow> py_error + fl list" where
  "ctx_scores_loop mode iet [] = Inr []"
| "ctx_scores_loop mode iet (scores # rest) =
     (case ctx_score_of mode iet scores of
        Inl e \<Rightarrow> Inl e
      | Inr v \<Rightarrow>
          (case ctx_scores_loop mode iet rest of
             Inl e \<Rightarrow> Inl e
           | Inr vs \<Rightarrow> Inr (v # vs)))"

definition get_ctx_scores ::
  "env \<Rightarrow> rat list list \<Rightarrow> string \<Rightarrow> string \<Rightarrow> bool \<Rightarrow> string \<Rightarrow> string option list \<Rightarrow> string
     \<Rightarrow> py_error + fl list" where
  "get_ctx_scores tokenizer batch_scores mode qmode iet question titles pattern_str =
     (case batch_scores_ctxs tokenizer batch_scores qmode question titles pattern_str of
        Inl e \<Rightarrow> Inl e
      | Inr rows \<Rightarrow> ctx_scores_loop mode iet rows)"

text \<open>
  Collaborators for the worked examples: one token per character, and a
  sentence ends at every full stop (blanks before a sentence are skipped).
\<close>

fun dot_sentences :: "string \<Rightarrow> string \<Rightarrow> string list" where
  "dot_sentences cur [] = (if cur = [] then [] else [cur])"
| "dot_sentences cur (c # cs) =
     (if c = CHR ''.'' then (cur @ [c]) # dot_sentences [] cs
      else if cur = [] \<and> c = CHR '' '' then dot_sentences [] cs
      else dot_sentences (cur @ [c]) cs)"

definition char_env :: env where
  "char_env = \<lparr> tok_encode = map (\<lambda>c. int (of_char c)),
                tok_decode = map (\<lambda>i. char_of (nat i)),
                gpt_encode = map (\<lambda>c. int (of_char c)),
                sent_tokenize = dot_sentences [],
                dict_wo_instruction = (\<lambda>_. None),
                adaptive_comp_len = (\<lambda>scores p n. map (\<lambda>_. 0) scores) \<rparr>"

section \<open>Context selection\<close>

text \<open>Sequencing of fallible steps: the first exception ends the run.\<close>

definition bind_err :: "py_error + 'a \<Rightarrow> ('a \<Rightarrow> py_error + 'b) \<Rightarrow> py_error + 'b" where
  "bind_err m f = (case m of Inl e \<Rightarrow> Inl e | Inr x \<Rightarrow> f x)"

definition INSTRUCTION :: string where
  "INSTRUCTION = ''Write a high-quality answer for the given question using only the provided search results (some of which might be irrelevant).''"

definition newline :: char where
  "newline = CHR 0x0A"

text \<open>\<^verbatim>\<open>sub in s\<close> on strings.\<close>

fun str_contains :: "string \<Rightarrow> string \<Rightarrow> bool" where
  "str_contains sub [] = (sub = [])"
| "str_contains sub (c # cs) = (take (length sub) (c # cs) = sub \<or> str_contains sub cs)"

text \<open>
  \<^verbatim>\<open>get_prompt([], {'question': question}, dataset)\<close>: the prompt without
  passages, the only call \<^verbatim>\<open>compress_contexts\<close> makes. The loop over the
  passages does not run; \<^verbatim>\<open>dataname\<close> is what follows the first underscore of
  the dataset name, and an unknown \<^verbatim>\<open>dataname\<close> is a \<^verbatim>\<open>KeyError\<close>.
\<close>

definition get_prompt_no_ctxs :: "env \<Rightarrow> string \<Rightarrow> string \<Rightarrow> py_error + string" where
  "get_prompt_no_ctxs tokenizer question ds =
     (if str_contains ''longbench'' ds then
        (case dict_wo_instruction tokenizer (drop 1 (dropWhile (\<lambda>c. c \<noteq> CHR ''_'') ds)) of
           None \<Rightarrow> Inl KeyError
         | Some template \<Rightarrow> Inr (template [] question))
      else Inr (INSTRUCTION @ [newline, newline] @ [] @ [newline, newline]
                  @ ''Question: '' @ question @ [newline] @ ''Answer:''))"

text \<open>Decimal rendering of the integers that f-strings interpolate.\<close>

fun str_of_nat :: "nat \<Rightarrow> string" where
  "str_of_nat n =
     (if n < 10 then [char_of (48 + n)]
      else str_of_nat (n div 10) @ [char_of (48 + n mod 10)])"

declare str_of_nat.simps [simp del]

definition str_of_int :: "int \<Rightarrow> string" where
  "str_of_int i = (if i < 0 then CHR ''-'' # str_of_nat (nat (- i)) else str_of_nat (nat i))"

text \<open>\<^verbatim>\<open>f"Document [{idx}](Title: {title}) {text}"\<close>.\<close>

definition render_document :: "int \<Rightarrow> string option \<Rightarrow> string \<Rightarrow> string" where
  "render_document idx t txt =
     ''Document ['' @ str_of_int idx @ ''](Title: '' @ str_of_title t @ '') '' @ txt"

text \<open>
  The length that the greedy walk adds for passage \<^verbatim>\<open>idx\<close>: the text alone on
  a long-document benchmark, the document wrapper around it otherwise (with
  the position \<^verbatim>\<open>idx\<close> in the candidate list as the document number).
\<close>

definition rendered_len :: "env \<Rightarrow> args \<Rightarrow> ctx list \<Rightarrow> nat \<Rightarrow> int" where
  "rendered_len tokenizer a ctxs idx =
     (if str_contains ''longbench'' (dataset a)
      then int (length (gpt_encode tokenizer (ctx_text (ctxs ! idx))))
      else int (length (gpt_encode tokenizer
             (render_document (int idx) (title (ctxs ! idx)) (ctx_text (ctxs ! idx))))))"

text \<open>
  The greedy walk (\<^verbatim>\<open>ctx_score_cumsum is None\<close>) over \<^verbatim>\<open>ctx_indices_sorted\<close>,
  returning \<^verbatim>\<open>ctx_indices\<close> and the running total \<^verbatim>\<open>len_total\<close>.
\<close>

fun greedy_loop ::
  "env \<Rightarrow> args \<Rightarrow> ctx list \<Rightarrow> int \<Rightarrow> nat list \<Rightarrow> int \<Rightarrow> nat list
     \<Rightarrow> py_error + (nat list \<times> int)" where
  "greedy_loop tokenizer a ctxs ctx_comp_len [] len_total ctx_indices =
     Inr (ctx_indices, len_total)"
| "greedy_loop tokenizer a ctxs ctx_comp_len (idx # rest) len_total ctx_indices =
     (if length ctxs \<le> idx then Inl IndexError
      else if \<not> comp_sent a
           \<and> \<bar>len_total - ctx_comp_len\<bar>
               < \<bar>len_total + rendered_len tokenizer a ctxs idx - ctx_comp_len\<bar>
      then Inr (ctx_indices, len_total)
      else (let len_total' = len_total + rendered_len tokenizer a ctxs idx;
                ctx_indices' = ctx_indices @ [idx]
            in if ctx_comp_len \<le> len_total' then Inr (ctx_indices', len_total')
               else greedy_loop tokenizer a ctxs ctx_comp_len rest len_total' ctx_indices'))"

text \<open>
  The percentile branch: the normalised scores and the selected indices.
  \<^verbatim>\<open>np.where(...)[0][0]\<close> raises when no cumulative sum exceeds the threshold.
\<close>

definition percentile_indices :: "fl list \<Rightarrow> rat \<Rightarrow> py_error + (fl list \<times> nat list)" where
  "percentile_indices ctx_scores ctx_score_cumsum =
     (let normed = map (\<lambda>x. fl_div x (np_sum ctx_scores)) ctx_scores;
          order = rev (argsort normed);
          cum = np_cumsum (map (\<lambda>i. normed ! i) order)
      in case filter (\<lambda>k. fl_gt (cum ! k) ctx_score_cumsum) [0..<length cum] of
           [] \<Rightarrow> Inl IndexError
         | k # _ \<Rightarrow>
             (let cum_ctx_index = (if k = 0 then 1 else k)
              in Inr (normed, take cum_ctx_index order)))"

definition select_indices ::
  "env \<Rightarrow> args \<Rightarrow> ctx list \<Rightarrow> int \<Rightarrow> rat option \<Rightarrow> fl list \<Rightarrow> int
     \<Rightarrow> py_error + (fl list \<times> nat list)" where
  "select_indices tokenizer a ctxs ctx_comp_len ctx_score_cumsum ctx_scores len_total =
     (case ctx_score_cumsum of
        Some threshold \<Rightarrow> percentile_indices ctx_scores threshold
      | None \<Rightarrow>
          bind_err (greedy_loop tokenizer a ctxs ctx_comp_len (rev (argsort ctx_scores)) len_total [])
            (\<lambda>(ctx_indices, _). Inr (ctx_scores, ctx_indices)))"

text \<open>\<^verbatim>\<open>for idx in ctx_indices: ctxs[idx]['ctx_score'] = ctx_scores[idx]\<close>.\<close>

fun assign_scores :: "fl list \<Rightarrow> nat list \<Rightarrow> ctx list \<Rightarrow> py_error + ctx list" where
  "assign_scores ctx_scores [] ctxs = Inr ctxs"
| "assign_scores ctx_scores (idx # rest) ctxs =
     (if length ctxs \<le> idx then Inl IndexError
      else assign_scores ctx_scores rest
             (ctxs[idx := (ctxs ! idx)\<lparr>ctx_score := Some (ctx_scores ! idx)\<rparr>]))"

text \<open>Indexing by a list of positions, \<^verbatim>\<open>xs[ctx_indices_selected]\<close>.\<close>

definition take_rows :: "'a list \<Rightarrow> nat list \<Rightarrow> py_error + 'a list" where
  "take_rows xs sel =
     (if list_all (\<lambda>i. i < length xs) sel then Inr (map (\<lambda>i. xs ! i) sel) else Inl IndexError)"

definition compress_contexts ::
  "env \<Rightarrow> args \<Rightarrow> rat list list \<Rightarrow> int list list \<Rightarrow> ctx list \<Rightarrow> int \<Rightarrow> rat option
     \<Rightarrow> string \<Rightarrow> string
     \<Rightarrow> py_error + (rat list list \<times> int list list \<times> ctx list \<times> nat list)" where
  "compress_contexts tokenizer a batch_scores batch_token_ids ctxs ctx_comp_len ctx_score_cumsum
       question pattern_str =
     bind_err (get_ctx_scores tokenizer batch_scores (ctx_score_mode a) (question_mode a)
                 (include_end_token a) question (map title ctxs) pattern_str)
       (\<lambda>ctx_scores.
     bind_err (get_prompt_no_ctxs tokenizer question (dataset a))
       (\<lambda>prompt.
     bind_err (select_indices tokenizer a ctxs ctx_comp_len ctx_score_cumsum ctx_scores
                 (int (length (gpt_encode tokenizer prompt))))
       (\<lambda>(ctx_scores', ctx_indices).
     bind_err (assign_scores ctx_scores' ctx_indices ctxs)
       (\<lambda>ctxs'.
     (let ctx_indices_selected = (if do_sort_ctx a then ctx_indices else sort ctx_indices)
      in bind_err (take_rows ctxs' ctx_indices_selected)
       (\<lambda>ctxs_out.
     bind_err (take_rows batch_scores ctx_indices_selected)
       (\<lambda>batch_scores_selected.
     bind_err (take_rows batch_token_ids ctx_indices_selected)
       (\<lambda>batch_token_ids_selected.
     Inr (batch_scores_selected, batch_token_ids_selected, ctxs_out, ctx_indices)))))))))"

section \<open>Sentence selection\<close>

text \<open>
  \<^verbatim>\<open>np.where(token_ids == 1)[0][-1]\<close>: the last position of the end marker, an
  \<^verbatim>\<open>IndexError\<close> when there is none.
\<close>

definition eos_token_idx :: "int list \<Rightarrow> py_error + nat" where
  "eos_token_idx token_ids =
     (case rev (filter (\<lambda>j. token_ids ! j = 1) [0..<length token_ids]) of
        [] \<Rightarrow> Inl IndexError
      | j # _ \<Rightarrow> Inr j)"

text \<open>
  The first loop, over \<^verbatim>\<open>enumerate(batch_token_ids)\<close>; \<^verbatim>\<open>ctx_start_indices[ctx_i]\<close>
  is read for \<^verbatim>\<open>batch_len_context\<close>.
\<close>

fun batch_eos_loop :: "nat list \<Rightarrow> nat \<Rightarrow> int list list \<Rightarrow> py_error + nat list" where
  "batch_eos_loop ctx_start_indices ctx_i [] = Inr []"
| "batch_eos_loop ctx_start_indices ctx_i (token_ids # rest) =
     bind_err (eos_token_idx token_ids)
       (\<lambda>eos.
          if length ctx_start_indices \<le> ctx_i then Inl IndexError
          else bind_err (batch_eos_loop ctx_start_indices (Suc ctx_i) rest)
                 (\<lambda>more. Inr (eos # more)))"

text \<open>\<^verbatim>\<open>xs[a:b]\<close> for bounds that are not negative.\<close>

definition slice :: "nat \<Rightarrow> nat \<Rightarrow> 'a list \<Rightarrow> 'a list" where
  "slice a b xs = drop a (take b xs)"

text \<open>
  \<^verbatim>\<open>[batch[i][ctx_start_indices[i]:eos] for i, eos in enumerate(batch_eos_token_idx)]\<close>,
  the content region of every row.
\<close>

definition context_rows :: "'a list list \<Rightarrow> nat list \<Rightarrow> nat list \<Rightarrow> py_error + 'a list list" where
  "context_rows batch ctx_start_indices batch_eos =
     (if length batch < length batch_eos then Inl IndexError
      else Inr (map (\<lambda>i. slice (ctx_start_indices ! i) (batch_eos ! i) (batch ! i))
                  [0..<length batch_eos]))"

text \<open>\<^verbatim>\<open>s.find(sub)\<close>: the first position of \<^verbatim>\<open>sub\<close> in \<^verbatim>\<open>s\<close>, or \<open>-1\<close>.\<close>

definition py_find :: "string \<Rightarrow> string \<Rightarrow> int" where
  "py_find s sub =
     (case filter (\<lambda>k. take (length sub) (drop k s) = sub) [0..<Suc (length s)] of
        [] \<Rightarrow> - 1
      | k # _ \<Rightarrow> int k)"

text \<open>The separators between consecutive sentences, recovered from the text.\<close>

fun split_tokens_loop :: "string \<Rightarrow> string list \<Rightarrow> string list" where
  "split_tokens_loop ctx_text' (prev_sent # cur_sent # rest) =
     (let len_prev_sent = int (length prev_sent);
          cur_sent_start_idx =
            len_prev_sent + py_find (py_slice_from len_prev_sent ctx_text') cur_sent;
          split_token = py_slice len_prev_sent cur_sent_start_idx ctx_text'
      in split_token # split_tokens_loop (py_slice_from cur_sent_start_idx ctx_text')
                         (cur_sent # rest))"
| "split_tokens_loop ctx_text' _ = []"

definition split_token_ctx :: "string \<Rightarrow> string list \<Rightarrow> string list" where
  "split_token_ctx ctx_text' sents = [] # split_tokens_loop ctx_text' sents"

text \<open>
  \<^verbatim>\<open>cum_len_list\<close>, and the pooling loop over it: one slot (mean score, scores,
  token ids) for every sentence that starts inside the score array.
\<close>

definition cum_len_list :: "nat list \<Rightarrow> nat list" where
  "cum_len_list lens = map (\<lambda>i. sum_list (take (Suc i) lens)) [0..<length lens]"

fun pool_sentences ::
  "rat list \<Rightarrow> int list \<Rightarrow> nat \<Rightarrow> nat list \<Rightarrow> (fl \<times> rat list \<times> int list) list" where
  "pool_sentences context_score context_ids start_idx [] = []"
| "pool_sentences context_score context_ids start_idx (cum_len # rest) =
     (if length context_score \<le> start_idx
      then pool_sentences context_score context_ids start_idx rest
      else (np_mean (slice start_idx cum_len context_score),
            slice start_idx cum_len context_score,
            slice start_idx cum_len context_ids)
           # pool_sentences context_score context_ids cum_len rest)"

definition pool_ctx ::
  "env \<Rightarrow> rat list \<Rightarrow> int list \<Rightarrow> string list \<Rightarrow> (fl \<times> rat list \<times> int list) list" where
  "pool_ctx tokenizer context_score context_ids sents =
     pool_sentences context_score context_ids 0
       (cum_len_list (map (\<lambda>sent. length (tok_encode tokenizer sent)) sents))"

text \<open>\<^verbatim>\<open>int(a / b)\<close> for integers \<^verbatim>\<open>a\<close> and \<^verbatim>\<open>b > 0\<close>: the quotient truncated towards zero.\<close>

definition int_quot :: "int \<Rightarrow> int \<Rightarrow> int" where
  "int_quot a b = (if a < 0 then - ((- a) div b) else a div b)"

text \<open>
  The budgets \<^verbatim>\<open>comp_len_per_ctx\<close>: the sorted adaptive budgets (a \<^verbatim>\<open>KeyError\<close>
  when a passage has no \<^verbatim>\<open>ctx_score\<close>), or the uniform split.
\<close>

definition score_of_ctx :: "ctx \<Rightarrow> fl" where
  "score_of_ctx c = (case ctx_score c of None \<Rightarrow> NaN | Some v \<Rightarrow> v)"

definition initial_comp_len_per_ctx ::
  "env \<Rightarrow> ctx list \<Rightarrow> int \<Rightarrow> bool \<Rightarrow> rat \<Rightarrow> py_error + int list" where
  "initial_comp_len_per_ctx tokenizer ctxs sent_comp_len adaptive_sent_comp pow =
     (let num_ctxs = length ctxs in
      if adaptive_sent_comp \<and> 1 < num_ctxs then
        (if list_ex (\<lambda>c. ctx_score c = None) ctxs then Inl KeyError
         else Inr (sort (adaptive_comp_len tokenizer (map score_of_ctx ctxs) pow sent_comp_len)))
      else Inr (map (\<lambda>_. int_quot sent_comp_len (int num_ctxs)) ctxs))"

text \<open>
  The length of a passage in tokens of the length tokenizer, with the document
  wrapper when the passage has a title.
\<close>

definition ctx_len_of :: "env \<Rightarrow> ctx \<Rightarrow> string \<Rightarrow> int" where
  "ctx_len_of tokenizer c txt =
     (if title c \<noteq> None
      then int (length (gpt_encode tokenizer (render_document (org_idx c) (title c) txt)))
      else int (length (gpt_encode tokenizer txt)))"

text \<open>
  The sentence-dropping loop over \<^verbatim>\<open>enumerate(argsort_sent)\<close>. The result is the
  value of \<^verbatim>\<open>r\<close> when the loop is left, with \<^verbatim>\<open>cur_comp_len\<close> and
  \<^verbatim>\<open>total_comp_len\<close>; \<^verbatim>\<open>r\<close> is the position of the sentence in hand.
\<close>

fun drop_loop ::
  "(nat \<Rightarrow> int) \<Rightarrow> int \<Rightarrow> int \<Rightarrow> nat \<Rightarrow> nat list \<Rightarrow> int \<Rightarrow> int \<Rightarrow> int \<times> int \<times> int" where
  "drop_loop sent_len sent_comp_len comp_len r [] cur_comp_len total_comp_len' =
     (int r - 1, cur_comp_len, total_comp_len')"
| "drop_loop sent_len sent_comp_len comp_len r (sent_index # rest) cur_comp_len total_comp_len' =
     (let cur_sent_len = sent_len sent_index;
          cur = cur_comp_len + cur_sent_len;
          tot = total_comp_len' + cur_sent_len
      in if sent_comp_len \<le> tot then
           (if \<bar>tot - cur_sent_len - sent_comp_len\<bar> < \<bar>tot - sent_comp_len\<bar>
            then (int r - 1, cur - cur_sent_len, tot - cur_sent_len)
            else (int r, cur, tot))
         else if comp_len \<le> cur then (int r, cur, tot)
         else drop_loop sent_len sent_comp_len comp_len (Suc r) rest cur tot)"

text \<open>
  The number of sentences dropped from the front of \<^verbatim>\<open>argsort_sent\<close>: \<^verbatim>\<open>r + 1\<close>,
  lowered by one under \<^verbatim>\<open>constraint_1_sent\<close> when it would be all of them.
\<close>

definition dropped_count :: "bool \<Rightarrow> nat \<Rightarrow> int \<Rightarrow> nat" where
  "dropped_count constraint_1_sent n r =
     (let r' = nat (r + 1) in if constraint_1_sent \<and> r' = n then r' - 1 else r')"

text \<open>
  Lines 405 to 423. When more was saved than the budget of the passage, the
  excess is taken off the budgets from rank 0 upwards, up to the passage's own
  rank; otherwise what is left of the budget is added to the budget at rank - 1.
\<close>

fun exceed_loop :: "nat \<Rightarrow> nat \<Rightarrow> int \<Rightarrow> int list \<Rightarrow> int list" where
  "exceed_loop rank r_i exceed_len [] = []"
| "exceed_loop rank r_i exceed_len (comp_len_ctx # rest) =
     (if exceed_len = 0 \<or> r_i = rank then comp_len_ctx # rest
      else if 0 < comp_len_ctx
        then max 0 (comp_len_ctx - exceed_len)
               # exceed_loop rank (Suc r_i) (max 0 (exceed_len - comp_len_ctx)) rest
      else comp_len_ctx # exceed_loop rank (Suc r_i) exceed_len rest)"

definition reconcile :: "nat \<Rightarrow> int \<Rightarrow> int \<Rightarrow> int list \<Rightarrow> int list" where
  "reconcile rank comp_len cur_comp_len comp_len_per_ctx' =
     (if comp_len < cur_comp_len
      then exceed_loop rank 0 (cur_comp_len - comp_len) comp_len_per_ctx'
      else if rank = 0 then comp_len_per_ctx'
      else comp_len_per_ctx'[rank - 1 :=
             comp_len_per_ctx' ! (rank - 1) + (comp_len - cur_comp_len)])"

text \<open>
  What the main loop reads and does not change: the pooled slots of every
  passage (\<^verbatim>\<open>sent_mean_score_ctxs\<close>, \<^verbatim>\<open>sent_scores_ctxs\<close>, \<^verbatim>\<open>sent_token_ids_ctxs\<close>),
  the sentences, their separators, the content rows and the two dictionaries.
\<close>

record sent_data =
  pooled :: "(fl \<times> rat list \<times> int list) list list"
  sents_list :: "string list list"
  split_token_ctxs :: "string list list"
  batch_scores_context :: "rat list list"
  batch_token_ids_context :: "int list list"
  rank_map :: "int \<Rightarrow> nat option"
  ctx_idx2ctx_i :: "int \<Rightarrow> nat option"

text \<open>What the main loop updates.\<close>

record sent_state =
  total_comp_len :: int
  comp_len_per_ctx :: "int list"
  ctx_removal_indices :: "nat list"
  new_scores_ctxs :: "int \<Rightarrow> rat list option"
  new_token_ids_ctxs :: "int \<Rightarrow> int list option"
  ctxs_now :: "ctx list"

text \<open>
  The text of a passage after sentence selection: the selected sentences in
  text order, each after its separator, then the unscored rest sentences.
\<close>

definition sent_comp_text :: "string list \<Rightarrow> string list \<Rightarrow> string list \<Rightarrow> nat list \<Rightarrow> string" where
  "sent_comp_text split_token sents rest_sents sent_indices_selected =
     concat (map (\<lambda>sent_index. split_token ! sent_index @ sents ! sent_index) sent_indices_selected)
     @ concat (map (\<lambda>sent_index. split_token ! (sent_index + length sents) @ rest_sents ! sent_index)
                 [0..<length rest_sents])"

text \<open>
  The branch of the main loop that leaves a passage as it is: its content rows
  are stored under \<^verbatim>\<open>idx\<close>.
\<close>

definition keep_ctx :: "sent_data \<Rightarrow> sent_state \<Rightarrow> int \<Rightarrow> nat \<Rightarrow> sent_state" where
  "keep_ctx d st idx i =
     st\<lparr>new_scores_ctxs := (new_scores_ctxs st)(idx \<mapsto> batch_scores_context d ! i),
        new_token_ids_ctxs := (new_token_ids_ctxs st)(idx \<mapsto> batch_token_ids_context d ! i)\<rparr>"

text \<open>
  The branch that drops sentences from passage \<^verbatim>\<open>i\<close> of rank \<^verbatim>\<open>rank\<close>: the
  dropping loop, the removal of the passage or its new text, and the
  reconciliation of the budgets (lines 358 to 423).
\<close>

definition drop_sentences ::
  "env \<Rightarrow> sent_data \<Rightarrow> int \<Rightarrow> bool \<Rightarrow> sent_state \<Rightarrow> int \<Rightarrow> nat \<Rightarrow> nat \<Rightarrow> sent_state" where
  "drop_sentences tokenizer d sent_comp_len constraint_1_sent st idx rank i =
     (let c = ctxs_now st ! i;
          ctx_len = ctx_len_of tokenizer c (ctx_text c);
          slots = pooled d ! i;
          rest_sents = drop (length slots) (sents_list d ! i);
          sents = take (length slots) (sents_list d ! i);
          comp_len = comp_len_per_ctx st ! rank;
          argsort_sent = argsort (map fst slots)
      in case drop_loop
                (\<lambda>sent_index. int (length (gpt_encode tokenizer
                    (split_token_ctxs d ! i ! sent_index @ sents ! sent_index))))
                sent_comp_len comp_len 0 argsort_sent 0 (total_comp_len st) of
           (r0, cur_comp_len, total1) \<Rightarrow>
             (let r = dropped_count constraint_1_sent (length argsort_sent) r0 in
              if r = length argsort_sent then
                st\<lparr>total_comp_len := total1 - (cur_comp_len - ctx_len),
                   comp_len_per_ctx := reconcile rank comp_len ctx_len (comp_len_per_ctx st),
                   ctx_removal_indices := ctx_removal_indices st @ [i]\<rparr>
              else
                (let sent_indices_selected = sort (drop r argsort_sent);
                     txt = sent_comp_text (split_token_ctxs d ! i) sents rest_sents
                             sent_indices_selected;
                     after_sent_comp_len = ctx_len_of tokenizer c txt;
                     actural_comp_len = ctx_len - after_sent_comp_len
                 in st\<lparr>total_comp_len := total1 - (cur_comp_len - actural_comp_len),
                       comp_len_per_ctx :=
                         reconcile rank comp_len actural_comp_len (comp_len_per_ctx st),
                       new_scores_ctxs := (new_scores_ctxs st)
                         (idx \<mapsto> concat (map (\<lambda>sent_index. fst (snd (slots ! sent_index)))
                                           sent_indices_selected)),
                       new_token_ids_ctxs := (new_token_ids_ctxs st)
                         (idx \<mapsto> concat (map (\<lambda>sent_index. snd (snd (slots ! sent_index)))
                                           sent_indices_selected)),
                       ctxs_now := (ctxs_now st)[i := c\<lparr>ctx_text := txt\<rparr>]\<rparr>)))"

text \<open>
  One round of the main loop, for the passage of index \<^verbatim>\<open>idx\<close>. The two calls of
  \<^verbatim>\<open>embed()\<close> are taken to return at once.
\<close>

definition sent_step ::
  "env \<Rightarrow> sent_data \<Rightarrow> int \<Rightarrow> bool \<Rightarrow> sent_state \<Rightarrow> int \<Rightarrow> py_error + sent_state" where
  "sent_step tokenizer d sent_comp_len constraint_1_sent st idx =
     (case rank_map d idx of
        None \<Rightarrow> Inl KeyError
      | Some rank \<Rightarrow>
          (case ctx_idx2ctx_i d idx of
             None \<Rightarrow> Inl KeyError
           | Some i \<Rightarrow>
               if length (pooled d) \<le> i then Inl IndexError
               else if pooled d ! i = [] then
                 Inr (st\<lparr>ctx_removal_indices := ctx_removal_indices st @ [i]\<rparr>)
               else if length (comp_len_per_ctx st) \<le> rank then Inl IndexError
               else if sent_comp_len \<le> total_comp_len st \<or> comp_len_per_ctx st ! rank = 0
                 then Inr (keep_ctx d st idx i)
               else Inr (drop_sentences tokenizer d sent_comp_len constraint_1_sent st idx rank i)))"

fun sent_loop ::
  "env \<Rightarrow> sent_data \<Rightarrow> int \<Rightarrow> bool \<Rightarrow> sent_state \<Rightarrow> int list \<Rightarrow> py_error + sent_state" where
  "sent_loop tokenizer d sent_comp_len constraint_1_sent st [] = Inr st"
| "sent_loop tokenizer d sent_comp_len constraint_1_sent st (idx # rest) =
     bind_err (sent_step tokenizer d sent_comp_len constraint_1_sent st idx)
       (\<lambda>st'. sent_loop tokenizer d sent_comp_len constraint_1_sent st' rest)"

text \<open>A dictionary built by a comprehension: the last entry of a key wins.\<close>

definition dict_of :: "('k \<times> 'v) list \<Rightarrow> 'k \<Rightarrow> 'v option" where
  "dict_of kvs = map_of (rev kvs)"

text \<open>\<^verbatim>\<open>[m[k] for k in keys]\<close>, a \<^verbatim>\<open>KeyError\<close> at the first missing key.\<close>

fun lookup_all :: "('k \<Rightarrow> 'v option) \<Rightarrow> 'k list \<Rightarrow> py_error + 'v list" where
  "lookup_all m [] = Inr []"
| "lookup_all m (k # ks) =
     (case m k of
        None \<Rightarrow> Inl KeyError
      | Some v \<Rightarrow> bind_err (lookup_all m ks) (\<lambda>vs. Inr (v # vs)))"

text \<open>The passages that are left when those marked for removal are taken out.\<close>

definition remove_ctxs :: "nat list \<Rightarrow> ctx list \<Rightarrow> ctx list" where
  "remove_ctxs removal ctxs =
     (if removal \<noteq> [] then map snd (filter (\<lambda>(i, c). i \<notin> set removal) (enumerate 0 ctxs))
      else ctxs)"

text \<open>
  Everything \<^verbatim>\<open>compress_sentences\<close> computes before its main loop (lines 226 to
  292 and the two dictionaries): the first exception ends the run.
\<close>

definition prepare_sentences ::
  "env \<Rightarrow> rat list list \<Rightarrow> int list list \<Rightarrow> ctx list \<Rightarrow> int list \<Rightarrow> string \<Rightarrow> string
     \<Rightarrow> py_error + sent_data" where
  "prepare_sentences tokenizer batch_scores batch_token_ids ctxs ctx_indices_sorted question
       pattern_str =
     bind_err (get_ctx_start_indices tokenizer question (map title ctxs) pattern_str)
       (\<lambda>ctx_start_indices.
     bind_err (batch_eos_loop ctx_start_indices 0 batch_token_ids)
       (\<lambda>batch_eos.
     bind_err (context_rows batch_scores ctx_start_indices batch_eos)
       (\<lambda>scores_context.
     bind_err (context_rows batch_token_ids ctx_start_indices batch_eos)
       (\<lambda>ids_context.
     (let sents = map (\<lambda>c. sent_tokenize tokenizer (ctx_text c)) ctxs
      in Inr \<lparr> pooled = map (\<lambda>(context_score, context_ids, ss).
                                 pool_ctx tokenizer context_score context_ids ss)
                            (zip scores_context (zip ids_context sents)),
                 sents_list = sents,
                 split_token_ctxs =
                   map (\<lambda>(c, ss). split_token_ctx (ctx_text c) ss) (zip ctxs sents),
                 batch_scores_context = scores_context,
                 batch_token_ids_context = ids_context,
                 rank_map = dict_of (zip ctx_indices_sorted [0..<length ctx_indices_sorted]),
                 ctx_idx2ctx_i =
                   dict_of (zip (map (\<lambda>c. org_idx c - 1) ctxs) [0..<length ctxs]) \<rparr>)))))"

text \<open>The state in which the main loop starts.\<close>

definition initial_state :: "int list \<Rightarrow> ctx list \<Rightarrow> sent_state" where
  "initial_state budgets ctxs =
     \<lparr> total_comp_len = 0, comp_len_per_ctx = budgets, ctx_removal_indices = [],
       new_scores_ctxs = Map.empty, new_token_ids_ctxs = Map.empty, ctxs_now = ctxs \<rparr>"

text \<open>What is returned from the state in which the main loop ends (lines 425 to 458).\<close>

definition finish_sentences ::
  "sent_state \<Rightarrow> py_error + (rat list list \<times> int list list \<times> ctx list)" where
  "finish_sentences st =
     (let ctxs' = remove_ctxs (ctx_removal_indices st) (ctxs_now st) in
      bind_err (lookup_all (new_scores_ctxs st) (map (\<lambda>c. org_idx c - 1) ctxs'))
        (\<lambda>scores_out.
      bind_err (lookup_all (new_token_ids_ctxs st) (map (\<lambda>c. org_idx c - 1) ctxs'))
        (\<lambda>ids_out.
      Inr (scores_out, ids_out, ctxs'))))"

definition compress_sentences ::
  "env \<Rightarrow> rat list list \<Rightarrow> int list list \<Rightarrow> ctx list \<Rightarrow> int list \<Rightarrow> int \<Rightarrow> bool
     \<Rightarrow> string \<Rightarrow> string \<Rightarrow> rat \<Rightarrow> bool
     \<Rightarrow> py_error + (rat list list \<times> int list list \<times> ctx list)" where
  "compress_sentences tokenizer batch_scores batch_token_ids ctxs ctx_indices_sorted sent_comp_len
       adaptive_sent_comp question pattern_str pow constraint_1_sent =
     bind_err (prepare_sentences tokenizer batch_scores batch_token_ids ctxs ctx_indices_sorted
                 question pattern_str)
       (\<lambda>d.
     bind_err (initial_comp_len_per_ctx tokenizer ctxs sent_comp_len adaptive_sent_comp pow)
       (\<lambda>budgets.
     bind_err (sent_loop tokenizer d sent_comp_len constraint_1_sent (initial_state budgets ctxs)
                 (rev ctx_indices_sorted))
       finish_sentences))"

section \<open>Token selection\<close>

text \<open>\<^verbatim>\<open>int(x)\<close> on a float: truncation towards zero.\<close>

definition trunc_rat :: "rat \<Rightarrow> int" where
  "trunc_rat x = (if x < 0 then - \<lfloor>- x\<rfloor> else \<lfloor>x\<rfloor>)"

definition union1d :: "nat list \<Rightarrow> nat list \<Rightarrow> nat list" where
  "union1d xs ys = sort (remdups (xs @ ys))"

text \<open>\<^verbatim>\<open>re.sub(r' {2,}', ' ', s)\<close>.\<close>

fun collapse_spaces :: "string \<Rightarrow> string" where
  "collapse_spaces (a # b # cs) =
     (if a = CHR '' '' \<and> b = CHR '' '' then collapse_spaces (b # cs)
      else a # collapse_spaces (b # cs))"
| "collapse_spaces cs = cs"

text \<open>
  The product \<^verbatim>\<open>batch_scores.shape[0] * token_lamb\<close> is a product of floats,
  binary64 numbers, and is rounded before \<^verbatim>\<open>int\<close> truncates it; the rounding
  decides the count when the exact product is next to an integer, so it is
  modelled here. \<^verbatim>\<open>bit_length n\<close> is the number of binary digits of a positive
  integer, \<^verbatim>\<open>pow2 k\<close> is the power \<^verbatim>\<open>2^k\<close>, and \<^verbatim>\<open>binade x\<close> is the exponent \<^verbatim>\<open>e\<close>
  with \<^verbatim>\<open>2^e <= x < 2^(e+1)\<close> of a positive \<^verbatim>\<open>x\<close>.
\<close>

function bit_length :: "int \<Rightarrow> nat" where
  "bit_length n = (if n \<le> 0 then 0 else Suc (bit_length (n div 2)))"
  by pat_completeness auto
termination by (relation "measure nat") auto

declare bit_length.simps [simp del]

definition pow2 :: "int \<Rightarrow> rat" where
  "pow2 k = (if 0 \<le> k then 2 ^ nat k else 1 / 2 ^ nat (- k))"

definition binade :: "rat \<Rightarrow> int" where
  "binade x =
     (case quotient_of x of
        (a, b) \<Rightarrow>
          (let k = int (bit_length a) - int (bit_length b)
           in if pow2 k \<le> x then k else k - 1))"

text \<open>Rounding to the nearest integer, a tie to the even one.\<close>

definition round_half_even :: "rat \<Rightarrow> int" where
  "round_half_even q =
     (let m = \<lfloor>q\<rfloor>; f = q - of_int m
      in if f < 1 / 2 then m else if 1 / 2 < f then m + 1 else if even m then m else m + 1)"

text \<open>
  The binary64 number nearest to \<open>x\<close>, a tie to the even significand: 53
  significant binary digits, exponents from \<^verbatim>\<open>-1022\<close> (below it the spacing
  stays \<^verbatim>\<open>2^-1074\<close>) to \<^verbatim>\<open>1023\<close>, an infinity when the rounded value reaches
  \<^verbatim>\<open>2^1024\<close>. The sign of a zero is not kept; \<^verbatim>\<open>int\<close> does not see it.
\<close>

definition to_double :: "rat \<Rightarrow> fl" where
  "to_double x =
     (if x = 0 then Fin 0
      else
        (let a = \<bar>x\<bar>;
             e = max (binade a) (- 1022);
             m = round_half_even (a / pow2 (e - 52))
         in if 1023 < e \<or> (e = 1023 \<and> 9007199254740992 \<le> m)
            then (if 0 < x then PInf else NInf)
            else Fin ((if 0 < x then 1 else - 1) * of_int m * pow2 (e - 52))))"

text \<open>The product of two floats.\<close>

fun fl_mul :: "fl \<Rightarrow> fl \<Rightarrow> fl" where
  "fl_mul NaN _ = NaN"
| "fl_mul _ NaN = NaN"
| "fl_mul (Fin a) (Fin b) = to_double (a * b)"
| "fl_mul (Fin a) PInf = (if a = 0 then NaN else if 0 < a then PInf else NInf)"
| "fl_mul (Fin a) NInf = (if a = 0 then NaN else if 0 < a then NInf else PInf)"
| "fl_mul PInf (Fin b) = (if b = 0 then NaN else if 0 < b then PInf else NInf)"
| "fl_mul NInf (Fin b) = (if b = 0 then NaN else if 0 < b then NInf else PInf)"
| "fl_mul PInf PInf = PInf"
| "fl_mul PInf NInf = NInf"
| "fl_mul NInf PInf = NInf"
| "fl_mul NInf NInf = PInf"

text \<open>
  \<^verbatim>\<open>target_len = int(batch_scores.shape[0] * token_lamb)\<close>. The length is
  converted to a float (an \<^verbatim>\<open>OverflowError\<close> when it is too large), the float
  \<^verbatim>\<open>token_lamb\<close> is the binary64 number nearest to the number given for it
  (that number itself when it is a binary64 number), the product is rounded,
  and \<^verbatim>\<open>int\<close> truncates it towards zero, with an \<^verbatim>\<open>OverflowError\<close> on an
  infinity and a \<^verbatim>\<open>ValueError\<close> on \<^verbatim>\<open>nan\<close>.
\<close>

definition target_len_of :: "nat \<Rightarrow> rat \<Rightarrow> py_error + int" where
  "target_len_of n token_lamb =
     (case to_double (of_nat n) of
        Fin nf \<Rightarrow>
          (case fl_mul (Fin nf) (to_double token_lamb) of
             Fin product \<Rightarrow> Inr (trunc_rat product)
           | NaN \<Rightarrow> Inl ValueError
           | _ \<Rightarrow> Inl OverflowError)
      | _ \<Rightarrow> Inl OverflowError)"

text \<open>
  \<^verbatim>\<open>sorted_target_indices\<close>: the \<^verbatim>\<open>target_len\<close> best positions of the
  concatenated scores, in ascending order of position.
\<close>

definition sorted_target_indices :: "rat list \<Rightarrow> int \<Rightarrow> nat list" where
  "sorted_target_indices scores target_len =
     sort (py_slice_to target_len (rev (argsort (map Fin scores))))"

text \<open>The positions kept for the passage that occupies \<^verbatim>\<open>start\<close> to \<^verbatim>\<open>end\<close>.\<close>

definition cur_target_indices :: "int list \<Rightarrow> nat list \<Rightarrow> nat \<Rightarrow> nat \<Rightarrow> nat list" where
  "cur_target_indices ids sorted_target start end_idx =
     (let cur = filter (\<lambda>j. start \<le> j \<and> j < end_idx) sorted_target;
          empty_token_indices =
            map (\<lambda>j. j + start)
              (filter (\<lambda>j. slice start end_idx ids ! j = 3) [0..<length (slice start end_idx ids)])
      in sort (union1d cur empty_token_indices))"

text \<open>The token ids handed to \<^verbatim>\<open>decode\<close> for that passage.\<close>

definition new_batch_token_ids_filtered ::
  "int list \<Rightarrow> nat list \<Rightarrow> nat \<Rightarrow> nat \<Rightarrow> py_error + int list" where
  "new_batch_token_ids_filtered ids sorted_target start end_idx =
     bind_err (take_rows ids (cur_target_indices ids sorted_target start end_idx))
       (\<lambda>new_batch_token_ids. Inr (filter (\<lambda>t. t \<noteq> 2) new_batch_token_ids))"

fun token_loop ::
  "env \<Rightarrow> int list \<Rightarrow> nat list \<Rightarrow> nat \<Rightarrow> (nat \<times> ctx) list \<Rightarrow> py_error + ctx list" where
  "token_loop tokenizer ids sorted_target start [] = Inr []"
| "token_loop tokenizer ids sorted_target start ((cum_len, c) # rest) =
     bind_err (new_batch_token_ids_filtered ids sorted_target start cum_len)
       (\<lambda>kept.
     bind_err (token_loop tokenizer ids sorted_target cum_len rest)
       (\<lambda>more.
     Inr (c\<lparr>ctx_text := collapse_spaces (tok_decode tokenizer kept)\<rparr> # more)))"

definition compress_tokens ::
  "rat list list \<Rightarrow> int list list \<Rightarrow> ctx list \<Rightarrow> rat \<Rightarrow> env \<Rightarrow> py_error + ctx list" where
  "compress_tokens batch_scores batch_token_ids ctxs token_lamb tokenizer =
     (let len_ctxs = map length batch_scores in
      if batch_scores = [] \<or> batch_token_ids = [] then Inl EmptyConcatenate
      else
        bind_err (target_len_of (length (concat batch_scores)) token_lamb)
          (\<lambda>target_len.
        bind_err (token_loop tokenizer (concat batch_token_ids)
                    (sorted_target_indices (concat batch_scores) target_len) 0
                    (zip (cum_len_list len_ctxs) ctxs))
          (\<lambda>done. Inr (done @ drop (length len_ctxs) ctxs))))"

text \<open>The running total of the greedy walk after the passages \<^verbatim>\<open>idxs\<close> have been added.\<close>

definition running_total :: "env \<Rightarrow> args \<Rightarrow> ctx list \<Rightarrow> int \<Rightarrow> nat list \<Rightarrow> int" where
  "running_total tokenizer a ctxs len_total idxs =
     len_total + sum_list (map (rendered_len tokenizer a ctxs) idxs)"

text \<open>Inputs of the worked examples.\<close>

definition args_nq :: args where
  "args_nq = \<lparr> do_sort_ctx = False, ctx_score_mode = ''mean'', question_mode = ''include'',
               include_end_token = True, dataset = ''nq'', comp_sent = False \<rparr>"

definition ctxs3 :: "ctx list" where
  "ctxs3 = [\<lparr>ctx_text = ''aa'', title = Some ''t'', org_idx = 1, ctx_score = None\<rparr>,
            \<lparr>ctx_text = ''bb'', title = Some ''t'', org_idx = 2, ctx_score = None\<rparr>,
            \<lparr>ctx_text = ''cc'', title = Some ''t'', org_idx = 3, ctx_score = None\<rparr>]"

text \<open>
  Two passages without titles, with their score and token rows, and what
  \<^verbatim>\<open>compress_sentences\<close> prepares for them.
\<close>

definition ctxs2 :: "ctx list" where
  "ctxs2 = [\<lparr>ctx_text = ''Aa. Bb. Cc.'', title = None, org_idx = 1, ctx_score = Some (Fin 2)\<rparr>,
            \<lparr>ctx_text = ''Dd. Ee.'', title = None, org_idx = 2, ctx_score = Some (Fin 1)\<rparr>]"

definition batch_scores2 :: "rat list list" where
  "batch_scores2 = [replicate 11 7 @ [5, 5, 5, 1, 1, 1, 3, 3, 3] @ [1, 0, 0],
                    replicate 11 7 @ [2, 2, 2, 4, 4, 4] @ [1, 0, 0]]"

definition batch_token_ids2 :: "int list list" where
  "batch_token_ids2 = [replicate 11 9 @ [21, 22, 23, 24, 25, 26, 27, 28, 29] @ [1, 0, 0],
                       replicate 11 9 @ [31, 32, 33, 34, 35, 36] @ [1, 0, 0]]"


text \<open>Score and token rows for a run of token selection, and a run of all three stages.\<close>

definition token_scores2 :: "rat list list" where
  "token_scores2 = [[5, 5, 1, 1, 1, 5], [2, 2, 2, 4, 4, 4]]"

definition token_ids2 :: "int list list" where
  "token_ids2 = [[21, 22, 23, 3, 28, 2], [31, 32, 33, 34, 35, 36]]"

definition args_sent :: args where
  "args_sent = \<lparr> do_sort_ctx = False, ctx_score_mode = ''mean'', question_mode = ''include'',
                  include_end_token = True, dataset = ''nq'', comp_sent = True \<rparr>"

definition ctxs_run :: "ctx list" where
  "ctxs_run = [\<lparr>ctx_text = ''Dd. Ee.'', title = None, org_idx = 1, ctx_score = None\<rparr>,
               \<lparr>ctx_text = ''Ff.'', title = None, org_idx = 2, ctx_score = None\<rparr>,
               \<lparr>ctx_text = ''Aa. Bb. Cc.'', title = None, org_idx = 3, ctx_score = None\<rparr>]"

definition batch_scores_run :: "rat list list" where
  "batch_scores_run = [replicate 11 2 @ [2, 2, 2, 4, 4, 4] @ [1, 0, 0],
                       replicate 11 1 @ [1, 1, 1] @ [1, 0, 0],
                       replicate 11 7 @ [5, 5, 5, 1, 1, 1, 3, 3, 3] @ [1, 0, 0]]"

definition batch_token_ids_run :: "int list list" where
  "batch_token_ids_run = [replicate 11 9 @ [31, 32, 33, 34, 35, 36] @ [1, 0, 0],
                          replicate 11 9 @ [41, 42, 43] @ [1, 0, 0],
                          replicate 11 9 @ [21, 22, 23, 24, 25, 26, 27, 28, 29] @ [1, 0, 0]]"

section \<open>Properties of the passage scores\<close>

lemma ctx_scores_loop_length:
  "ctx_scores_loop mode iet rows = Inr rs \<Longrightarrow> length rs = length rows"
  by (induction rows arbitrary: rs) (auto split: sum.splits)

lemma ctx_scores_loop_nth:
  "ctx_scores_loop mode iet rows = Inr rs \<Longrightarrow> i < length rows
     \<Longrightarrow> ctx_score_of mode iet (rows ! i) = Inr (rs ! i)"
proof (induction rows arbitrary: rs i)
  case Nil
  then show ?case by simp
next
  case (Cons row rows)
  then show ?case by (cases i) (auto split: sum.splits)
qed

lemma ctx_scores_loop_cong:
  "map (\<lambda>row. filter (\<lambda>x. x \<noteq> 0) row) rows = map (\<lambda>row. filter (\<lambda>x. x \<noteq> 0) row) rows'
     \<Longrightarrow> ctx_scores_loop mode iet rows = ctx_scores_loop mode iet rows'"
proof (induction rows arbitrary: rows')
  case Nil
  then show ?case by simp
next
  case (Cons row rows)
  then obtain row' rest where r: "rows' = row' # rest" by (cases rows') auto
  with Cons.prems have "filter (\<lambda>x. x \<noteq> 0) row = filter (\<lambda>x. x \<noteq> 0) row'"
    and "map (\<lambda>row. filter (\<lambda>x. x \<noteq> 0) row) rows = map (\<lambda>row. filter (\<lambda>x. x \<noteq> 0) row) rest"
    by auto
  then have "ctx_score_of mode iet row = ctx_score_of mode iet row'"
    and "ctx_scores_loop mode iet rows = ctx_scores_loop mode iet rest"
    using Cons.IH by (auto simp: ctx_score_of_def nonzero_upto_end_def)
  with r show ?case by (auto split: sum.splits)
qed

lemma fold_max_Max: "fold max xs (x::rat) = Max (set (x # xs))"
proof (induction xs arbitrary: x)
  case Nil
  then show ?case by simp
next
  case (Cons y ys)
  have "Max (insert x (insert y (set ys))) = Max (insert (max y x) (set ys))"
    by (cases "set ys = {}") (simp_all add: max.commute max.left_commute max.assoc)
  with Cons show ?case by simp
qed

lemma py_slice_to_butlast: "py_slice_to (- 1) xs = butlast xs"
  by (simp add: py_slice_to_def py_bound_def butlast_conv_take nat_diff_distrib')

lemma ctx_score_of_sel:
  assumes "ctx_score_of mode iet scores = Inr v" and "sel = nonzero_upto_end iet scores"
  shows "(mode = ''mean'' \<longrightarrow>
                 v = (if sel = [] then NaN else Fin (sum_list sel / of_nat (length sel))))
           \<and> (mode = ''max'' \<longrightarrow> sel \<noteq> [] \<and> v = Fin (Max (set sel)))
           \<and> (mode = ''sum'' \<longrightarrow> v = Fin (sum_list sel))"
proof (intro conjI impI)
  assume "mode = ''mean''"
  with assms show "v = (if sel = [] then NaN else Fin (sum_list sel / of_nat (length sel)))"
    by (auto simp: ctx_score_of_def np_mean_def)
next
  assume "mode = ''sum''"
  with assms show "v = Fin (sum_list sel)"
    by (simp add: ctx_score_of_def)
next
  assume m: "mode = ''max''"
  with assms have mx: "np_max sel = Inr v"
    by (simp add: ctx_score_of_def)
  then show "sel \<noteq> []" by (auto simp: np_max_def)
  then obtain x rest where "sel = x # rest" by (cases sel) auto
  with mx show "v = Fin (Max (set sel))"
    by (simp add: np_max_def fold_max_Max del: Max_insert)
qed

lemma ctx_score_of_nonzero:
  assumes "ctx_score_of mode iet scores = Inr v"
  shows "let nz = filter (\<lambda>x. x \<noteq> 0) scores; sel = (if iet then nz else butlast nz) in
           (mode = ''mean'' \<longrightarrow>
                 v = (if sel = [] then NaN else Fin (sum_list sel / of_nat (length sel))))
           \<and> (mode = ''max'' \<longrightarrow> sel \<noteq> [] \<and> v = Fin (Max (set sel)))
           \<and> (mode = ''sum'' \<longrightarrow> v = Fin (sum_list sel))"
proof -
  have "nonzero_upto_end iet scores
      = (if iet then filter (\<lambda>x. x \<noteq> 0) scores else butlast (filter (\<lambda>x. x \<noteq> 0) scores))"
    by (simp add: nonzero_upto_end_def py_slice_to_butlast)
  from ctx_score_of_sel [OF assms this [symmetric]] show ?thesis
    unfolding Let_def .
qed









text \<open>
  Claim C10. Every score \<^verbatim>\<open>get_ctx_scores\<close> returns is the mean, maximum or sum
  of the nonzero entries of the passage's offset-adjusted row, the last of
  them left out when \<^verbatim>\<open>include_end_token\<close> is false: the zeros are removed
  first, the truncation and the aggregation follow. Hence two batches that
  differ only in zero entries get the same scores.
\<close>

theorem get_ctx_scores_nonzero_only:
  "(get_ctx_scores tk bs mode qmode iet q ts p = Inr rs \<longrightarrow>
      (\<exists>rows. batch_scores_ctxs tk bs qmode q ts p = Inr rows \<and> length rs = length rows \<and>
         (\<forall>i<length rows.
            let nz = filter (\<lambda>x. x \<noteq> 0) (rows ! i); sel = (if iet then nz else butlast nz) in
              (mode = ''mean'' \<longrightarrow>
                 rs ! i = (if sel = [] then NaN else Fin (sum_list sel / of_nat (length sel))))
            \<and> (mode = ''max'' \<longrightarrow> sel \<noteq> [] \<and> rs ! i = Fin (Max (set sel)))
            \<and> (mode = ''sum'' \<longrightarrow> rs ! i = Fin (sum_list sel)))))
   \<and> (map (filter (\<lambda>x. x \<noteq> 0)) bs = map (filter (\<lambda>x. x \<noteq> 0)) bs' \<longrightarrow>
        get_ctx_scores tk bs mode ''include'' iet q ts p
          = get_ctx_scores tk bs' mode ''include'' iet q ts p)"
proof (intro conjI impI)
  assume a: "get_ctx_scores tk bs mode qmode iet q ts p = Inr rs"
  then obtain rows where rows: "batch_scores_ctxs tk bs qmode q ts p = Inr rows"
    and loop: "ctx_scores_loop mode iet rows = Inr rs"
    by (auto simp: get_ctx_scores_def split: sum.splits)
  have len: "length rs = length rows" using loop by (rule ctx_scores_loop_length)
  have "\<forall>i<length rows.
            let nz = filter (\<lambda>x. x \<noteq> 0) (rows ! i); sel = (if iet then nz else butlast nz) in
              (mode = ''mean'' \<longrightarrow>
                 rs ! i = (if sel = [] then NaN else Fin (sum_list sel / of_nat (length sel))))
            \<and> (mode = ''max'' \<longrightarrow> sel \<noteq> [] \<and> rs ! i = Fin (Max (set sel)))
            \<and> (mode = ''sum'' \<longrightarrow> rs ! i = Fin (sum_list sel))"
  proof (intro allI impI)
    fix i assume "i < length rows"
    then have "ctx_score_of mode iet (rows ! i) = Inr (rs ! i)"
      using loop by (simp add: ctx_scores_loop_nth)
    from ctx_score_of_nonzero [OF this]
    show "let nz = filter (\<lambda>x. x \<noteq> 0) (rows ! i); sel = (if iet then nz else butlast nz) in
              (mode = ''mean'' \<longrightarrow>
                 rs ! i = (if sel = [] then NaN else Fin (sum_list sel / of_nat (length sel))))
            \<and> (mode = ''max'' \<longrightarrow> sel \<noteq> [] \<and> rs ! i = Fin (Max (set sel)))
            \<and> (mode = ''sum'' \<longrightarrow> rs ! i = Fin (sum_list sel))"
      by (simp add: Let_def)
  qed
  with rows len
  show "\<exists>rows. batch_scores_ctxs tk bs qmode q ts p = Inr rows \<and> length rs = length rows \<and>
         (\<forall>i<length rows.
            let nz = filter (\<lambda>x. x \<noteq> 0) (rows ! i); sel = (if iet then nz else butlast nz) in
              (mode = ''mean'' \<longrightarrow>
                 rs ! i = (if sel = [] then NaN else Fin (sum_list sel / of_nat (length sel))))
            \<and> (mode = ''max'' \<longrightarrow> sel \<noteq> [] \<and> rs ! i = Fin (Max (set sel)))
            \<and> (mode = ''sum'' \<longrightarrow> rs ! i = Fin (sum_list sel)))"
    by (intro exI [of _ rows] conjI)
next
  assume "map (filter (\<lambda>x. x \<noteq> 0)) bs = map (filter (\<lambda>x. x \<noteq> 0)) bs'"
  then show "get_ctx_scores tk bs mode ''include'' iet q ts p
          = get_ctx_scores tk bs' mode ''include'' iet q ts p"
    using ctx_scores_loop_cong [of bs bs' mode iet]
    by (simp add: get_ctx_scores_def batch_scores_ctxs_def)
qed

theorem get_ctx_scores_nonzero_only_witness:
  "get_ctx_scores char_env [[0, 2, 0, 4, 6, 0]] ''mean'' ''include'' False ''q'' [None] ''p''
     = get_ctx_scores char_env [[2, 4, 6]] ''mean'' ''include'' False ''q'' [None] ''p''
   \<and> get_ctx_scores char_env [[2, 4, 6]] ''mean'' ''include'' False ''q'' [None] ''p'' = Inr [Fin 3]"
proof -
  have r: "get_ctx_scores char_env [[2, 4, 6]] ''mean'' ''include'' False ''q'' [None] ''p'' = Inr [Fin 3]"
    by (simp add: get_ctx_scores_def batch_scores_ctxs_def ctx_score_of_def np_mean_def
          nonzero_upto_end_def py_slice_to_def py_bound_def)
  have f: "map (filter (\<lambda>x. x \<noteq> 0)) [[0, 2, 0, 4, 6, 0::rat]] = map (filter (\<lambda>x. x \<noteq> 0)) [[2, 4, 6]]"
    by simp
  from get_ctx_scores_nonzero_only [THEN conjunct2, rule_format, OF f]
  have "get_ctx_scores char_env [[0, 2, 0, 4, 6, 0]] ''mean'' ''include'' False ''q'' [None] ''p''
     = get_ctx_scores char_env [[2, 4, 6]] ''mean'' ''include'' False ''q'' [None] ''p''" .
  with r show ?thesis by simp
qed

section \<open>Properties of context selection\<close>

lemma bind_err_simps [simp]:
  "bind_err (Inl e) f = Inl e"
  "bind_err (Inr x) f = f x"
  by (simp_all add: bind_err_def)

lemma bind_err_Inr_iff:
  "bind_err m f = Inr y \<longleftrightarrow> (\<exists>x. m = Inr x \<and> f x = Inr y)"
  by (cases m) simp_all

lemma length_cumsum_from [simp]: "length (cumsum_from acc xs) = length xs"
  by (induction xs arbitrary: acc) simp_all

lemma length_np_cumsum [simp]: "length (np_cumsum xs) = length xs"
  by (simp add: np_cumsum_def split: list.splits)

lemma length_argsort [simp]: "length (argsort xs) = length xs"
  by (simp add: argsort_def)

lemma set_argsort [simp]: "set (argsort xs) = {0..<length xs}"
  by (simp add: argsort_def)

lemma distinct_argsort [simp]: "distinct (argsort xs)"
  by (simp add: argsort_def)

lemma filter_upt_first:
  assumes "filter P [0..<n] = k # rest"
  shows "k < n \<and> P k \<and> (\<forall>j<k. \<not> P j)"
proof -
  from assms obtain us vs where split: "[0..<n] = us @ k # vs"
    and none: "\<forall>u\<in>set us. \<not> P u" and pk: "P k"
    by (auto simp: filter_eq_Cons_iff)
  have "k \<in> set [0..<n]" unfolding split by simp
  then have kn: "k < n" by simp
  have lu: "length us < n" using arg_cong [OF split, of length] by simp
  have "[0..<n] ! length us = k" unfolding split by simp
  then have "length us = k" using lu by simp
  then have "us = take k [0..<n]" unfolding split by simp
  then have "set us = {0..<k}" using kn by (simp add: take_upt)
  with none kn pk show ?thesis by auto
qed

text \<open>
  Claim C1, as amended. In percentile mode the selection is the prefix of the
  passages in descending score order that lies strictly before the first
  position \<open>k\<close> whose cumulative normalised score strictly exceeds the
  threshold, and one passage when \<open>k = 0\<close>: \<^verbatim>\<open>cum_ctx_index\<close> is that
  position itself, and \<^verbatim>\<open>[:cum_ctx_index]\<close> leaves the passage at position
  \<open>k\<close> out. For the scores 0.1, 0.5, 0.4 and the threshold 0.5 the position
  is 1, so the passage of score 0.5 alone is retained.
\<close>

theorem percentile_indices_prefix:
  assumes "percentile_indices ctx_scores threshold = Inr (normed, ctx_indices)"
  shows "\<exists>k. k < length ctx_scores
            \<and> normed = map (\<lambda>x. fl_div x (np_sum ctx_scores)) ctx_scores
            \<and> fl_gt (np_cumsum (map (\<lambda>i. normed ! i) (rev (argsort normed))) ! k) threshold
            \<and> (\<forall>j<k. \<not> fl_gt (np_cumsum (map (\<lambda>i. normed ! i) (rev (argsort normed))) ! j) threshold)
            \<and> ctx_indices = take (max 1 k) (rev (argsort normed))
            \<and> length ctx_indices = max 1 k"
proof -
  define nm where "nm = map (\<lambda>x. fl_div x (np_sum ctx_scores)) ctx_scores"
  define cum where "cum = np_cumsum (map (\<lambda>i. nm ! i) (rev (argsort nm)))"
  have lc: "length cum = length ctx_scores" by (simp add: cum_def nm_def)
  from assms obtain k rest where
    f: "filter (\<lambda>k. fl_gt (cum ! k) threshold) [0..<length cum] = k # rest"
    and n: "normed = nm" and c: "ctx_indices = take (if k = 0 then 1 else k) (rev (argsort nm))"
    by (auto simp: percentile_indices_def Let_def nm_def cum_def split: list.splits)
  from filter_upt_first [OF f]
  have k: "k < length cum" "fl_gt (cum ! k) threshold" "\<forall>j<k. \<not> fl_gt (cum ! j) threshold"
    by auto
  have m: "(if k = 0 then 1 else k) = max 1 k" by auto
  have "length ctx_indices = max 1 k"
    using k(1) lc unfolding c m by (simp add: nm_def)
  with k lc n c m show ?thesis
    unfolding cum_def nm_def by (intro exI [of _ k]) simp
qed

theorem percentile_indices_prefix_witness:
  "\<exists>k. k < length [Fin (1/10), Fin (1/2), Fin (2/5)]
      \<and> [1] = take (max 1 k) (rev (argsort [Fin (1/10), Fin (1/2), Fin (2/5)]))
      \<and> length [1::nat] = max 1 k"
proof -
  have "percentile_indices [Fin (1/10), Fin (1/2), Fin (2/5)] (1/2)
      = Inr ([Fin (1/10), Fin (1/2), Fin (2/5)], [1])"
    by code_simp
  from percentile_indices_prefix [OF this] show ?thesis by blast
qed

text \<open>
  Claim C1, as stated, fails: for three passages of scores 0.1, 0.5, 0.4 and
  \<^verbatim>\<open>ctx_score_cumsum = 0.5\<close>, \<^verbatim>\<open>compress_contexts\<close> returns the passage of
  score 0.5 alone, not the two passages of scores 0.5 and 0.4.
\<close>

theorem compress_contexts_percentile_counterexample:
  "compress_contexts char_env args_nq [[1/10], [1/2], [2/5]] [[5, 1], [6, 1], [7, 1]] ctxs3 100
      (Some (1/2)) ''q'' ''p''
   = Inr ([[1/2]], [[6, 1]],
          [\<lparr>ctx_text = ''bb'', title = Some ''t'', org_idx = 2, ctx_score = Some (Fin (1/2))\<rparr>],
          [1])"
  by code_simp

lemma running_total_Nil [simp]: "running_total tk a ctxs L [] = L"
  by (simp add: running_total_def)

lemma running_total_Cons [simp]:
  "running_total tk a ctxs L (x # xs) = running_total tk a ctxs (L + rendered_len tk a ctxs x) xs"
  by (simp add: running_total_def)

lemma greedy_loop_walk:
  assumes "greedy_loop tk a ctxs T xs L acc = Inr (sel, len_final)"
  shows "\<exists>k\<le>length xs.
           sel = acc @ take k xs
         \<and> len_final = running_total tk a ctxs L (take k xs)
         \<and> (\<forall>j. 0 < j \<and> j < k \<longrightarrow> running_total tk a ctxs L (take j xs) < T)
         \<and> (\<not> comp_sent a \<longrightarrow>
              (\<forall>j<k. \<bar>running_total tk a ctxs L (take (Suc j) xs) - T\<bar>
                       \<le> \<bar>running_total tk a ctxs L (take j xs) - T\<bar>))
         \<and> (k = length xs \<or> (0 < k \<and> T \<le> len_final)
              \<or> (\<not> comp_sent a \<and> \<bar>len_final - T\<bar> < \<bar>running_total tk a ctxs L (take (Suc k) xs) - T\<bar>))"
  using assms
proof (induction xs arbitrary: L acc)
  case Nil
  then show ?case by simp
next
  case (Cons x xs)
  let ?l = "rendered_len tk a ctxs x"
  from Cons.prems have inr: "x < length ctxs"
    by (auto split: if_splits)
  show ?case
  proof (cases "\<not> comp_sent a \<and> \<bar>L - T\<bar> < \<bar>L + ?l - T\<bar>")
    case True
    with Cons.prems inr have "sel = acc" "len_final = L" by auto
    with True show ?thesis by (intro exI [of _ 0]) simp
  next
    case far: False
    show ?thesis
    proof (cases "T \<le> L + ?l")
      case True
      with far Cons.prems inr have r: "sel = acc @ [x]" "len_final = L + ?l"
        by (auto simp: Let_def)
      have "\<not> comp_sent a \<longrightarrow> \<bar>L + ?l - T\<bar> \<le> \<bar>L - T\<bar>" using far by auto
      with r True show ?thesis by (intro exI [of _ 1]) simp
    next
      case False
      with far Cons.prems inr
      have "greedy_loop tk a ctxs T xs (L + ?l) (acc @ [x]) = Inr (sel, len_final)"
        by (auto simp: Let_def)
      from Cons.IH [OF this] obtain k where k: "k \<le> length xs"
        "sel = (acc @ [x]) @ take k xs"
        "len_final = running_total tk a ctxs (L + ?l) (take k xs)"
        "\<forall>j. 0 < j \<and> j < k \<longrightarrow> running_total tk a ctxs (L + ?l) (take j xs) < T"
        "\<not> comp_sent a \<longrightarrow>
              (\<forall>j<k. \<bar>running_total tk a ctxs (L + ?l) (take (Suc j) xs) - T\<bar>
                       \<le> \<bar>running_total tk a ctxs (L + ?l) (take j xs) - T\<bar>)"
        "k = length xs \<or> (0 < k \<and> T \<le> len_final)
              \<or> (\<not> comp_sent a \<and> \<bar>len_final - T\<bar> < \<bar>running_total tk a ctxs (L + ?l) (take (Suc k) xs) - T\<bar>)"
        by blast
      have below: "\<forall>j. 0 < j \<and> j < Suc k \<longrightarrow> running_total tk a ctxs L (take j (x # xs)) < T"
      proof (intro allI impI)
        fix j assume j: "0 < j \<and> j < Suc k"
        then obtain j' where j': "j = Suc j'" by (cases j) auto
        show "running_total tk a ctxs L (take j (x # xs)) < T"
        proof (cases j')
          case 0
          with j' False show ?thesis by simp
        next
          case (Suc m)
          with j j' k(4) show ?thesis by simp
        qed
      qed
      have closer: "\<not> comp_sent a \<longrightarrow>
              (\<forall>j<Suc k. \<bar>running_total tk a ctxs L (take (Suc j) (x # xs)) - T\<bar>
                       \<le> \<bar>running_total tk a ctxs L (take j (x # xs)) - T\<bar>)"
      proof (intro allI impI)
        fix j assume nc: "\<not> comp_sent a" and j: "j < Suc k"
        show "\<bar>running_total tk a ctxs L (take (Suc j) (x # xs)) - T\<bar>
                       \<le> \<bar>running_total tk a ctxs L (take j (x # xs)) - T\<bar>"
        proof (cases j)
          case 0
          with far nc show ?thesis by simp
        next
          case (Suc m)
          with j nc k(5) show ?thesis by simp
        qed
      qed
      from k(1,2,3,6) below closer show ?thesis
        by (intro exI [of _ "Suc k"]) auto
    qed
  qed
qed

text \<open>
  Claim C2. In greedy mode the selected indices are a prefix of the passages in
  descending score order, and the running total starts at the length of the
  prompt without passages. While passages are added the running total stays
  below \<^verbatim>\<open>ctx_comp_len\<close> (the walk stops at once when it is reached). With
  \<^verbatim>\<open>comp_sent\<close> off, no added passage moves the running total farther from
  \<^verbatim>\<open>ctx_comp_len\<close>, so the final total is never farther from it than the
  total with one passage less. The walk ends when the passages are exhausted,
  when the total has reached \<^verbatim>\<open>ctx_comp_len\<close>, or, with \<^verbatim>\<open>comp_sent\<close> off, when
  the next passage would move the total farther away.
\<close>

theorem greedy_selection_budget:
  assumes "compress_contexts tk a bs bt ctxs T None q p = Inr (bs', bt', out, ctx_indices)"
  shows "\<exists>ctx_scores prompt.
           get_ctx_scores tk bs (ctx_score_mode a) (question_mode a) (include_end_token a) q
             (map title ctxs) p = Inr ctx_scores
         \<and> get_prompt_no_ctxs tk q (dataset a) = Inr prompt
         \<and> ctx_indices = take (length ctx_indices) (rev (argsort ctx_scores))
         \<and> length ctx_indices \<le> length ctx_scores
         \<and> (\<forall>j. 0 < j \<and> j < length ctx_indices \<longrightarrow>
               running_total tk a ctxs (int (length (gpt_encode tk prompt))) (take j ctx_indices) < T)
         \<and> (\<not> comp_sent a \<longrightarrow>
              (\<forall>j<length ctx_indices.
                 \<bar>running_total tk a ctxs (int (length (gpt_encode tk prompt))) (take (Suc j) ctx_indices) - T\<bar>
                   \<le> \<bar>running_total tk a ctxs (int (length (gpt_encode tk prompt))) (take j ctx_indices) - T\<bar>))
         \<and> (length ctx_indices = length ctx_scores
              \<or> (ctx_indices \<noteq> [] \<and> T \<le> running_total tk a ctxs (int (length (gpt_encode tk prompt))) ctx_indices)
              \<or> (\<not> comp_sent a \<and>
                    \<bar>running_total tk a ctxs (int (length (gpt_encode tk prompt))) ctx_indices - T\<bar>
                  < \<bar>running_total tk a ctxs (int (length (gpt_encode tk prompt)))
                        (take (Suc (length ctx_indices)) (rev (argsort ctx_scores))) - T\<bar>))"
proof -
  from assms obtain ctx_scores prompt sc where
    s: "get_ctx_scores tk bs (ctx_score_mode a) (question_mode a) (include_end_token a) q
             (map title ctxs) p = Inr ctx_scores"
    and pr: "get_prompt_no_ctxs tk q (dataset a) = Inr prompt"
    and sel: "select_indices tk a ctxs T None ctx_scores (int (length (gpt_encode tk prompt)))
               = Inr (sc, ctx_indices)"
    unfolding compress_contexts_def Let_def
    by (auto simp: bind_err_Inr_iff)
  let ?L = "int (length (gpt_encode tk prompt))"
  let ?xs = "rev (argsort ctx_scores)"
  from sel obtain len_final where
    g: "greedy_loop tk a ctxs T ?xs ?L [] = Inr (ctx_indices, len_final)"
    by (auto simp: select_indices_def bind_err_Inr_iff)
  from greedy_loop_walk [OF g] obtain k where k: "k \<le> length ?xs"
    "ctx_indices = take k ?xs"
    "len_final = running_total tk a ctxs ?L (take k ?xs)"
    "\<forall>j. 0 < j \<and> j < k \<longrightarrow> running_total tk a ctxs ?L (take j ?xs) < T"
    "\<not> comp_sent a \<longrightarrow>
              (\<forall>j<k. \<bar>running_total tk a ctxs ?L (take (Suc j) ?xs) - T\<bar>
                       \<le> \<bar>running_total tk a ctxs ?L (take j ?xs) - T\<bar>)"
    "k = length ?xs \<or> (0 < k \<and> T \<le> len_final)
              \<or> (\<not> comp_sent a \<and> \<bar>len_final - T\<bar> < \<bar>running_total tk a ctxs ?L (take (Suc k) ?xs) - T\<bar>)"
    by auto
  have lk: "length ctx_indices = k" using k(1,2) by simp
  have tk1: "\<And>j. j \<le> k \<Longrightarrow> take j ctx_indices = take j ?xs"
    unfolding k(2) by (simp add: min_def)
  have len: "length ?xs = length ctx_scores" by (simp add: argsort_def)
  have c3: "ctx_indices = take (length ctx_indices) ?xs" using k(2) lk by simp
  have c4: "length ctx_indices \<le> length ctx_scores" using k(1) lk len by simp
  have c5: "\<forall>j. 0 < j \<and> j < length ctx_indices \<longrightarrow> running_total tk a ctxs ?L (take j ctx_indices) < T"
    using k(4) lk tk1 by simp
  have c6: "\<not> comp_sent a \<longrightarrow>
              (\<forall>j<length ctx_indices.
                 \<bar>running_total tk a ctxs ?L (take (Suc j) ctx_indices) - T\<bar>
                   \<le> \<bar>running_total tk a ctxs ?L (take j ctx_indices) - T\<bar>)"
    using k(5) lk tk1 by simp
  have tl: "len_final = running_total tk a ctxs ?L ctx_indices" using k(2,3) by simp
  have c7: "length ctx_indices = length ctx_scores
              \<or> (ctx_indices \<noteq> [] \<and> T \<le> running_total tk a ctxs ?L ctx_indices)
              \<or> (\<not> comp_sent a \<and>
                    \<bar>running_total tk a ctxs ?L ctx_indices - T\<bar>
                  < \<bar>running_total tk a ctxs ?L (take (Suc (length ctx_indices)) ?xs) - T\<bar>)"
    using k(6) lk len tl by auto
  from s pr c3 c4 c5 c6 c7 show ?thesis by blast
qed

theorem greedy_selection_budget_witness:
  "\<exists>ctx_scores prompt.
           get_ctx_scores char_env [[1/10], [1/2], [2/5]] (ctx_score_mode args_nq)
             (question_mode args_nq) (include_end_token args_nq) ''q''
             (map title ctxs3) ''p'' = Inr ctx_scores
         \<and> get_prompt_no_ctxs char_env ''q'' (dataset args_nq) = Inr prompt
         \<and> [1] = take (length [1::nat]) (rev (argsort ctx_scores))
         \<and> length [1::nat] \<le> length ctx_scores
         \<and> (\<forall>j. 0 < j \<and> j < length [1::nat] \<longrightarrow>
               running_total char_env args_nq ctxs3 (int (length (gpt_encode char_env prompt)))
                 (take j [1]) < 175)
         \<and> (\<not> comp_sent args_nq \<longrightarrow>
              (\<forall>j<length [1::nat].
                 \<bar>running_total char_env args_nq ctxs3 (int (length (gpt_encode char_env prompt)))
                    (take (Suc j) [1]) - 175\<bar>
                   \<le> \<bar>running_total char_env args_nq ctxs3 (int (length (gpt_encode char_env prompt)))
                        (take j [1]) - 175\<bar>))
         \<and> (length [1::nat] = length ctx_scores
              \<or> ([1::nat] \<noteq> [] \<and> 175 \<le> running_total char_env args_nq ctxs3
                    (int (length (gpt_encode char_env prompt))) [1])
              \<or> (\<not> comp_sent args_nq \<and>
                    \<bar>running_total char_env args_nq ctxs3 (int (length (gpt_encode char_env prompt))) [1]
                       - 175\<bar>
                  < \<bar>running_total char_env args_nq ctxs3 (int (length (gpt_encode char_env prompt)))
                        (take (Suc (length [1::nat])) (rev (argsort ctx_scores))) - 175\<bar>))"
proof -
  have e: "compress_contexts char_env args_nq [[1/10], [1/2], [2/5]] [[5, 1], [6, 1], [7, 1]] ctxs3
             175 None ''q'' ''p''
           = Inr ([[1/2]], [[6, 1]],
               [\<lparr>ctx_text = ''bb'', title = Some ''t'', org_idx = 2, ctx_score = Some (Fin (1/2))\<rparr>],
               [1])"
    by code_simp
  show ?thesis by (rule greedy_selection_budget [OF e])
qed

lemma argsort_Nil [simp]: "argsort [] = []"
  by (simp add: argsort_def)

lemma percentile_empty: "percentile_indices [] t = Inl IndexError"
  by (simp add: percentile_indices_def np_cumsum_def)

lemma get_ctx_scores_empty_include:
  "get_ctx_scores tk [] mode ''include'' iet q ts p = Inr []"
  by (simp add: get_ctx_scores_def batch_scores_ctxs_def)

lemma get_ctx_scores_no_titles_exclude:
  "get_ctx_scores tk bs mode ''exclude'' iet q [] p = Inl IndexError"
  by (simp add: get_ctx_scores_def batch_scores_ctxs_def get_ctx_start_indices_def)

lemma get_ctx_scores_bad_qmode:
  "qmode \<noteq> ''include'' \<Longrightarrow> qmode \<noteq> ''exclude''
     \<Longrightarrow> get_ctx_scores tk bs mode qmode iet q ts p = Inl InvalidQuestionMode"
  by (simp add: get_ctx_scores_def batch_scores_ctxs_def)

text \<open>
  Claim C8, as amended. With no candidate passage \<^verbatim>\<open>compress_contexts\<close> raises
  no error of its own. With \<^verbatim>\<open>question_mode = include\<close> and a prompt template
  that is found, the greedy mode returns the empty selection and the
  percentile mode fails with the \<^verbatim>\<open>IndexError\<close> of \<^verbatim>\<open>np.where(...)[0][0]\<close>;
  with \<^verbatim>\<open>question_mode = exclude\<close> it fails with the \<^verbatim>\<open>IndexError\<close> of
  \<^verbatim>\<open>titles[0]\<close>; any other \<^verbatim>\<open>question_mode\<close> is the invalid-mode error.
\<close>

theorem compress_contexts_no_candidates:
  "(question_mode a = ''exclude'' \<longrightarrow>
      compress_contexts tk a [] [] [] ctx_comp_len cumsum q p = Inl IndexError)
   \<and> (question_mode a = ''include'' \<longrightarrow>
      compress_contexts tk a [] [] [] ctx_comp_len cumsum q p
        = (case get_prompt_no_ctxs tk q (dataset a) of
             Inl e \<Rightarrow> Inl e
           | Inr prompt \<Rightarrow> (case cumsum of None \<Rightarrow> Inr ([], [], [], []) | Some t \<Rightarrow> Inl IndexError)))
   \<and> (question_mode a \<noteq> ''include'' \<and> question_mode a \<noteq> ''exclude'' \<longrightarrow>
      compress_contexts tk a [] [] [] ctx_comp_len cumsum q p = Inl InvalidQuestionMode)"
proof (intro conjI impI)
  assume "question_mode a = ''exclude''"
  then show "compress_contexts tk a [] [] [] ctx_comp_len cumsum q p = Inl IndexError"
    by (simp add: compress_contexts_def get_ctx_scores_no_titles_exclude)
next
  assume "question_mode a \<noteq> ''include'' \<and> question_mode a \<noteq> ''exclude''"
  then show "compress_contexts tk a [] [] [] ctx_comp_len cumsum q p = Inl InvalidQuestionMode"
    by (simp add: compress_contexts_def get_ctx_scores_bad_qmode)
next
  assume inc: "question_mode a = ''include''"
  show "compress_contexts tk a [] [] [] ctx_comp_len cumsum q p
        = (case get_prompt_no_ctxs tk q (dataset a) of
             Inl e \<Rightarrow> Inl e
           | Inr prompt \<Rightarrow> (case cumsum of None \<Rightarrow> Inr ([], [], [], []) | Some t \<Rightarrow> Inl IndexError))"
  proof (cases "get_prompt_no_ctxs tk q (dataset a)")
    case (Inl e)
    with inc show ?thesis
      by (simp add: compress_contexts_def get_ctx_scores_empty_include)
  next
    case (Inr prompt)
    show ?thesis
    proof (cases cumsum)
      case None
      with inc Inr show ?thesis
        by (simp add: compress_contexts_def get_ctx_scores_empty_include select_indices_def
              take_rows_def)
    next
      case (Some t)
      with inc Inr show ?thesis
        by (simp add: compress_contexts_def get_ctx_scores_empty_include select_indices_def
              percentile_empty)
    qed
  qed
qed

theorem compress_contexts_no_candidates_witness:
  "compress_contexts char_env (args_nq\<lparr>question_mode := ''exclude''\<rparr>) [] [] [] 200 None ''q'' ''p''
     = Inl IndexError
   \<and> compress_contexts char_env args_nq [] [] [] 200 (Some (1/2)) ''q'' ''p'' = Inl IndexError"
proof -
  have q1: "question_mode (args_nq\<lparr>question_mode := ''exclude''\<rparr>) = ''exclude''" by simp
  have q2: "question_mode args_nq = ''include''" by (simp add: args_nq_def)
  have p: "get_prompt_no_ctxs char_env ''q'' (dataset args_nq)
     = Inr (INSTRUCTION @ [newline, newline] @ [] @ [newline, newline]
                  @ ''Question: '' @ ''q'' @ [newline] @ ''Answer:'')"
    by (simp add: get_prompt_no_ctxs_def args_nq_def)
  from compress_contexts_no_candidates [of "args_nq\<lparr>question_mode := ''exclude''\<rparr>" char_env 200 None "''q''" "''p''"] q1
  have a: "compress_contexts char_env (args_nq\<lparr>question_mode := ''exclude''\<rparr>) [] [] [] 200 None ''q'' ''p''
     = Inl IndexError" by blast
  from compress_contexts_no_candidates [of args_nq char_env 200 "Some (1/2)" "''q''" "''p''"] q2
  have "compress_contexts char_env args_nq [] [] [] 200 (Some (1/2)) ''q'' ''p''
        = (case get_prompt_no_ctxs char_env ''q'' (dataset args_nq) of
             Inl e \<Rightarrow> Inl e
           | Inr prompt \<Rightarrow> (case Some (1/2::rat) of None \<Rightarrow> Inr ([], [], [], []) | Some t \<Rightarrow> Inl IndexError))"
    by blast
  with p have b: "compress_contexts char_env args_nq [] [] [] 200 (Some (1/2)) ''q'' ''p'' = Inl IndexError"
    by simp
  from a b show ?thesis by simp
qed

text \<open>
  Claim C8, as stated, fails: in greedy mode an empty candidate list is
  accepted and the empty selection is returned.
\<close>

theorem compress_contexts_empty_counterexample:
  "compress_contexts char_env args_nq [] [] [] 200 None ''q'' ''p'' = Inr ([], [], [], [])"
  by code_simp

section \<open>Properties of sentence selection\<close>

lemma slice_append:
  assumes "a \<le> b" and "b \<le> c"
  shows "slice a b xs @ slice b c xs = slice a c xs"
proof -
  define ys where "ys = drop a xs"
  have d: "drop b xs = drop (b - a) ys" using assms(1) by (simp add: ys_def)
  have "slice a b xs @ slice b c xs = take (b - a) ys @ take (c - b) (drop (b - a) ys)"
    using assms(1) by (simp add: slice_def drop_take ys_def)
  also have "\<dots> = take ((b - a) + (c - b)) ys" by (simp add: take_add)
  also have "(b - a) + (c - b) = c - a" using assms by simp
  finally show ?thesis by (simp add: slice_def drop_take ys_def)
qed

lemma length_pool_sentences_le:
  "length (pool_sentences cs ids start cums) \<le> length cums"
  by (induction cums arbitrary: start) (auto simp: le_SucI)

lemma pool_sentences_concat:
  assumes "length (pool_sentences cs ids start cums) = length cums"
    and "sorted (start # cums)"
  shows "concat (map (\<lambda>s. snd (snd s)) (pool_sentences cs ids start cums))
           = slice start (last (start # cums)) ids
       \<and> concat (map (\<lambda>s. fst (snd s)) (pool_sentences cs ids start cums))
           = slice start (last (start # cums)) cs"
  using assms
proof (induction cums arbitrary: start)
  case Nil
  then show ?case by (simp add: slice_def)
next
  case (Cons c cums)
  have noskip: "\<not> length cs \<le> start"
  proof
    assume "length cs \<le> start"
    then have "length (pool_sentences cs ids start (c # cums)) \<le> length cums"
      using length_pool_sentences_le [of cs ids start cums] by simp
    with Cons.prems(1) show False by simp
  qed
  then have eq: "pool_sentences cs ids start (c # cums)
      = (np_mean (slice start c cs), slice start c cs, slice start c ids)
        # pool_sentences cs ids c cums"
    by simp
  with Cons.prems(1) have len: "length (pool_sentences cs ids c cums) = length cums" by simp
  from Cons.prems(2) have srt: "sorted (c # cums)" and sc: "start \<le> c" by auto
  from srt have cl: "c \<le> last (c # cums)"
    by (metis last_in_set list.distinct(1) order_refl set_ConsD sorted_simps(2))
  from Cons.IH [OF len srt]
  have ih: "concat (map (\<lambda>s. snd (snd s)) (pool_sentences cs ids c cums))
           = slice c (last (c # cums)) ids"
    "concat (map (\<lambda>s. fst (snd s)) (pool_sentences cs ids c cums))
           = slice c (last (c # cums)) cs"
    by auto
  define e where "e = last (c # cums)"
  have l: "last (start # c # cums) = e" by (simp add: e_def)
  from ih have ih': "concat (map (\<lambda>s. snd (snd s)) (pool_sentences cs ids c cums)) = slice c e ids"
    "concat (map (\<lambda>s. fst (snd s)) (pool_sentences cs ids c cums)) = slice c e cs"
    by (simp_all only: e_def)
  from cl have ce: "c \<le> e" by (simp only: e_def)
  show ?case
    unfolding eq l using ih' by (simp add: slice_append [OF sc ce])
qed

lemma sum_list_take_mono:
  fixes xs :: "nat list"
  shows "i \<le> j \<Longrightarrow> sum_list (take i xs) \<le> sum_list (take j xs)"
proof -
  assume "i \<le> j"
  then have "take j xs = take i xs @ take (j - i) (drop i xs)"
    by (metis le_add_diff_inverse take_add)
  then show ?thesis by simp
qed

lemma sorted_cum_len_list: "sorted (0 # cum_len_list lens)"
proof -
  have "sorted (cum_len_list lens)"
    unfolding cum_len_list_def sorted_iff_nth_mono
    by (auto intro: sum_list_take_mono)
  then show ?thesis by simp
qed

lemma last_cum_len_list: "last (0 # cum_len_list lens) = sum_list lens"
  by (cases "lens = []") (simp_all add: cum_len_list_def last_map)

text \<open>
  Claim C7, as amended. For a passage that has as many pooled slots as
  sentences, the per-sentence token-id sub-arrays, concatenated, are the first
  \<open>L\<close> token ids of the passage's content array, where \<open>L\<close> is the sum of
  the re-tokenized sentence lengths; they are the whole content array when
  \<open>L\<close> is at least its length.
\<close>

theorem pooled_token_ids_prefix:
  assumes "length (pool_ctx tk context_score context_ids sents) = length sents"
  shows "concat (map (\<lambda>s. snd (snd s)) (pool_ctx tk context_score context_ids sents))
           = take (sum_list (map (\<lambda>sent. length (tok_encode tk sent)) sents)) context_ids
       \<and> (length context_ids \<le> sum_list (map (\<lambda>sent. length (tok_encode tk sent)) sents)
            \<longrightarrow> concat (map (\<lambda>s. snd (snd s)) (pool_ctx tk context_score context_ids sents))
                  = context_ids)"
proof -
  let ?lens = "map (\<lambda>sent. length (tok_encode tk sent)) sents"
  have "length (cum_len_list ?lens) = length sents" by (simp add: cum_len_list_def)
  with assms have "length (pool_sentences context_score context_ids 0 (cum_len_list ?lens))
      = length (cum_len_list ?lens)"
    by (simp add: pool_ctx_def)
  from pool_sentences_concat [OF this sorted_cum_len_list]
  have "concat (map (\<lambda>s. snd (snd s)) (pool_ctx tk context_score context_ids sents))
           = take (sum_list ?lens) context_ids"
    by (simp add: pool_ctx_def last_cum_len_list slice_def del: last.simps)
  then show ?thesis by simp
qed

theorem pooled_token_ids_prefix_witness:
  "concat (map (\<lambda>s. snd (snd s))
      (pool_ctx char_env [5, 5, 5, 1, 1, 1] [21, 22, 23, 24, 25, 26] [''Aa.'', ''Bb.'']))
     = take (sum_list (map (\<lambda>sent. length (tok_encode char_env sent)) [''Aa.'', ''Bb.'']))
         [21, 22, 23, 24, 25, 26]"
proof -
  have "length (pool_ctx char_env [5, 5, 5, 1, 1, 1] [21, 22, 23, 24, 25, 26] [''Aa.'', ''Bb.''])
      = length [''Aa.'', ''Bb.'']"
    by code_simp
  from pooled_token_ids_prefix [OF this] show ?thesis by blast
qed

text \<open>
  Claim C7, as stated, fails: the content array may be longer than the
  re-tokenized sentences together (separators between the sentences are
  tokens of the passage and of no sentence); its tail is then in no slot.
\<close>

theorem pooled_token_ids_counterexample:
  "length (pool_ctx char_env [5, 5, 5, 1, 1, 1, 3, 3] [21, 22, 23, 24, 25, 26, 27, 28]
             [''Aa.'', ''Bb.''])
     = length [''Aa.'', ''Bb.'']
   \<and> concat (map (\<lambda>s. snd (snd s))
        (pool_ctx char_env [5, 5, 5, 1, 1, 1, 3, 3] [21, 22, 23, 24, 25, 26, 27, 28]
           [''Aa.'', ''Bb.'']))
     \<noteq> [21, 22, 23, 24, 25, 26, 27, 28]"
  by code_simp

lemma length_exceed_loop [simp]: "length (exceed_loop rank r e cl) = length cl"
  by (induction cl arbitrary: r e) auto






lemma drop_sentences_unfold:
  assumes "drop_loop
                (\<lambda>sent_index. int (length (gpt_encode tk
                    (split_token_ctxs d ! i ! sent_index
                      @ take (length (pooled d ! i)) (sents_list d ! i) ! sent_index))))
                sent_comp_len (comp_len_per_ctx st ! rank) 0 (argsort (map fst (pooled d ! i))) 0
                (total_comp_len st)
              = (r0, cur, tot)"
    and "r = dropped_count c1 (length (argsort (map fst (pooled d ! i)))) r0"
    and "c = ctxs_now st ! i"
    and "txt = sent_comp_text (split_token_ctxs d ! i)
        (take (length (pooled d ! i)) (sents_list d ! i))
        (drop (length (pooled d ! i)) (sents_list d ! i))
        (sort (drop r (argsort (map fst (pooled d ! i)))))"
  shows "drop_sentences tk d sent_comp_len c1 st idx rank i =
     (if r = length (argsort (map fst (pooled d ! i))) then
        st\<lparr>total_comp_len := tot - (cur - ctx_len_of tk c (ctx_text c)),
           comp_len_per_ctx := reconcile rank (comp_len_per_ctx st ! rank)
                                 (ctx_len_of tk c (ctx_text c)) (comp_len_per_ctx st),
           ctx_removal_indices := ctx_removal_indices st @ [i]\<rparr>
      else
        st\<lparr>total_comp_len := tot - (cur - (ctx_len_of tk c (ctx_text c) - ctx_len_of tk c txt)),
           comp_len_per_ctx := reconcile rank (comp_len_per_ctx st ! rank)
                                 (ctx_len_of tk c (ctx_text c) - ctx_len_of tk c txt)
                                 (comp_len_per_ctx st),
           new_scores_ctxs := (new_scores_ctxs st)
             (idx \<mapsto> concat (map (\<lambda>sent_index. fst (snd (pooled d ! i ! sent_index)))
                               (sort (drop r (argsort (map fst (pooled d ! i))))))),
           new_token_ids_ctxs := (new_token_ids_ctxs st)
             (idx \<mapsto> concat (map (\<lambda>sent_index. snd (snd (pooled d ! i ! sent_index)))
                               (sort (drop r (argsort (map fst (pooled d ! i))))))),
           ctxs_now := (ctxs_now st)[i := c\<lparr>ctx_text := txt\<rparr>]\<rparr>)"
  unfolding drop_sentences_def Let_def assms(1) assms(2) assms(3) assms(4) prod.case
  by (rule refl)




lemma drop_loop_r:
  "drop_loop f L cl r xs cur tot = (r', cur', tot')
     \<Longrightarrow> int r - 1 \<le> r' \<and> r' \<le> int r + int (length xs) - 1"
proof (induction xs arbitrary: r cur tot)
  case Nil
  then show ?case by simp
next
  case (Cons x xs)
  show ?case
  proof (cases "L \<le> tot + f x")
    case True
    with Cons.prems show ?thesis by (auto simp: Let_def split: if_splits)
  next
    case False
    show ?thesis
    proof (cases "cl \<le> cur + f x")
      case True
      with False Cons.prems show ?thesis by (auto simp: Let_def)
    next
      case nb: False
      with False Cons.prems
      have "drop_loop f L cl (Suc r) xs (cur + f x) (tot + f x) = (r', cur', tot')"
        by (simp add: Let_def)
      from Cons.IH [OF this] show ?thesis by simp
    qed
  qed
qed

lemma dropped_count_constraint:
  "0 < n \<Longrightarrow> - 1 \<le> r0 \<Longrightarrow> r0 \<le> int n - 1 \<Longrightarrow> dropped_count True n r0 < n"
  by (auto simp: dropped_count_def Let_def)

lemma sorted_le_last: "sorted ys \<Longrightarrow> y \<in> set ys \<Longrightarrow> y \<le> last ys"
  by (induction ys) auto

lemma argsort_last_max:
  assumes "k < length xs"
  shows "fl_key (xs ! k) \<le> fl_key (xs ! last (argsort xs))"
proof -
  have s: "sorted (map (\<lambda>i. fl_key (xs ! i)) (argsort xs))"
    unfolding argsort_def by (rule sorted_sort_key)
  have ne: "argsort xs \<noteq> []" using assms by (metis length_argsort length_greater_0_conv less_nat_zero_code list.size(3) not_gr_zero)
  have "fl_key (xs ! k) \<in> set (map (\<lambda>i. fl_key (xs ! i)) (argsort xs))"
    using assms by simp
  from sorted_le_last [OF s this] show ?thesis
    using ne by (simp add: last_map)
qed

lemma keep_one_sentence:
  assumes "pooled d ! i \<noteq> []" and "i < length (ctxs_now st)"
  shows "\<exists>sel. sel \<noteq> [] \<and> sorted sel \<and> distinct sel
           \<and> set sel \<subseteq> {0..<length (pooled d ! i)}
           \<and> last (argsort (map fst (pooled d ! i))) \<in> set sel
           \<and> ctx_removal_indices (drop_sentences tk d L True st idx rank i)
               = ctx_removal_indices st
           \<and> new_token_ids_ctxs (drop_sentences tk d L True st idx rank i) idx
               = Some (concat (map (\<lambda>k. snd (snd (pooled d ! i ! k))) sel))
           \<and> ctx_text (ctxs_now (drop_sentences tk d L True st idx rank i) ! i)
               = sent_comp_text (split_token_ctxs d ! i)
                   (take (length (pooled d ! i)) (sents_list d ! i))
                   (drop (length (pooled d ! i)) (sents_list d ! i)) sel"
proof -
  define as where "as = argsort (map fst (pooled d ! i))"
  have n: "0 < length as" using assms(1) by (simp add: as_def)
  obtain r0 cur tot where dl: "drop_loop
                (\<lambda>sent_index. int (length (gpt_encode tk
                    (split_token_ctxs d ! i ! sent_index
                      @ take (length (pooled d ! i)) (sents_list d ! i) ! sent_index))))
                L (comp_len_per_ctx st ! rank) 0 (argsort (map fst (pooled d ! i))) 0
                (total_comp_len st)
              = (r0, cur, tot)"
    using prod_cases3 by blast
  define r where "r = dropped_count True (length (argsort (map fst (pooled d ! i)))) r0"
  define c where "c = ctxs_now st ! i"
  define ntext where "ntext = sent_comp_text (split_token_ctxs d ! i)
        (take (length (pooled d ! i)) (sents_list d ! i))
        (drop (length (pooled d ! i)) (sents_list d ! i))
        (sort (drop r (argsort (map fst (pooled d ! i)))))"
  note unf = drop_sentences_unfold [OF dl r_def c_def ntext_def, of idx]
  from drop_loop_r [OF dl] have "- 1 \<le> r0" "r0 \<le> int (length as) - 1"
    by (simp_all add: as_def)
  from dropped_count_constraint [OF n this] have rl: "r < length as"
    by (simp add: r_def as_def)
  then have rne: "r \<noteq> length (argsort (map fst (pooled d ! i)))" by (simp add: as_def)
  define sel where "sel = sort (drop r as)"
  have dne: "drop r as \<noteq> []" using rl by simp
  have s1: "sel \<noteq> []" using dne unfolding sel_def
    by (metis length_sort length_0_conv)
  have s2: "sorted sel" "distinct sel" by (simp_all add: sel_def as_def)
  have "set (drop r as) \<subseteq> set as" by (rule set_drop_subset)
  then have s3: "set sel \<subseteq> {0..<length (pooled d ! i)}" by (simp add: sel_def as_def)
  have "last (drop r as) = last as" using rl by simp
  then have "last as \<in> set (drop r as)" using dne by (metis last_in_set)
  then have s4: "last (argsort (map fst (pooled d ! i))) \<in> set sel" by (simp add: sel_def as_def)
  have s5: "ctx_removal_indices (drop_sentences tk d L True st idx rank i)
               = ctx_removal_indices st"
    unfolding unf using rne by simp
  have s6: "new_token_ids_ctxs (drop_sentences tk d L True st idx rank i) idx
               = Some (concat (map (\<lambda>k. snd (snd (pooled d ! i ! k))) sel))"
    unfolding unf using rne by (simp add: sel_def as_def)
  have "ctxs_now (drop_sentences tk d L True st idx rank i)
      = (ctxs_now st)[i := c\<lparr>ctx_text := ntext\<rparr>]"
    unfolding unf using rne by simp
  with assms(2) have s7: "ctx_text (ctxs_now (drop_sentences tk d L True st idx rank i) ! i)
               = sent_comp_text (split_token_ctxs d ! i)
                   (take (length (pooled d ! i)) (sents_list d ! i))
                   (drop (length (pooled d ! i)) (sents_list d ! i)) sel"
    by (simp add: ntext_def sel_def as_def)
  from s1 s2 s3 s4 s5 s6 s7 show ?thesis by blast
qed

lemma drop_sentences_no_removal:
  assumes "pooled d ! i \<noteq> []"
  shows "ctx_removal_indices (drop_sentences tk d L True st idx rank i) = ctx_removal_indices st"
proof -
  define as where "as = argsort (map fst (pooled d ! i))"
  have n: "0 < length as" using assms(1) by (simp add: as_def)
  obtain r0 cur tot where dl: "drop_loop
                (\<lambda>sent_index. int (length (gpt_encode tk
                    (split_token_ctxs d ! i ! sent_index
                      @ take (length (pooled d ! i)) (sents_list d ! i) ! sent_index))))
                L (comp_len_per_ctx st ! rank) 0 (argsort (map fst (pooled d ! i))) 0
                (total_comp_len st)
              = (r0, cur, tot)"
    using prod_cases3 by blast
  from drop_loop_r [OF dl] have "- 1 \<le> r0" "r0 \<le> int (length as) - 1"
    by (simp_all add: as_def)
  from dropped_count_constraint [OF n this]
  have "dropped_count True (length (argsort (map fst (pooled d ! i)))) r0
          \<noteq> length (argsort (map fst (pooled d ! i)))"
    by (simp add: as_def)
  then show ?thesis
    unfolding drop_sentences_unfold [where ?c1.0 = True and idx = idx, OF dl refl refl refl]
    by simp
qed

lemma sent_step_removal:
  assumes "sent_step tk d L True st idx = Inr st'"
    and "\<forall>j\<in>set (ctx_removal_indices st). j < length (pooled d) \<and> pooled d ! j = []"
  shows "\<forall>j\<in>set (ctx_removal_indices st'). j < length (pooled d) \<and> pooled d ! j = []"
proof -
  from assms(1) obtain rank i where
    r: "rank_map d idx = Some rank" and i: "ctx_idx2ctx_i d idx = Some i"
    by (auto simp: sent_step_def split: option.splits)
  from assms(1) r i have il: "i < length (pooled d)"
    by (auto simp: sent_step_def split: if_splits)
  show ?thesis
  proof (cases "pooled d ! i = []")
    case True
    with assms(1) r i il have "ctx_removal_indices st' = ctx_removal_indices st @ [i]"
      by (auto simp: sent_step_def)
    with assms(2) True il show ?thesis by auto
  next
    case False
    with assms(1) r i il have "st' = keep_ctx d st idx i
        \<or> st' = drop_sentences tk d L True st idx rank i"
      by (auto simp: sent_step_def split: if_splits)
    then have "ctx_removal_indices st' = ctx_removal_indices st"
      using drop_sentences_no_removal [OF False] by (auto simp: keep_ctx_def)
    with assms(2) show ?thesis by simp
  qed
qed

lemma sent_loop_removal:
  assumes "sent_loop tk d L True st idxs = Inr st'"
    and "\<forall>j\<in>set (ctx_removal_indices st). j < length (pooled d) \<and> pooled d ! j = []"
  shows "\<forall>j\<in>set (ctx_removal_indices st'). j < length (pooled d) \<and> pooled d ! j = []"
  using assms
proof (induction idxs arbitrary: st)
  case Nil
  then show ?case by simp
next
  case (Cons idx idxs)
  from Cons.prems(1) obtain st1 where s1: "sent_step tk d L True st idx = Inr st1"
    and l: "sent_loop tk d L True st1 idxs = Inr st'"
    by (auto simp: bind_err_Inr_iff)
  from sent_step_removal [OF s1 Cons.prems(2)] Cons.IH [OF l] show ?case by blast
qed

text \<open>
  Claim C4. With \<^verbatim>\<open>constraint_1_sent\<close> set, the sentence-dropping loop never
  drops every sentence of a passage. In the branch that drops sentences the
  passage is not marked for removal; the sentences it keeps are not empty and
  contain the last index of \<^verbatim>\<open>argsort_sent\<close>, a sentence of the highest mean
  score. In a whole run of \<^verbatim>\<open>compress_sentences\<close> the only passages removed are
  those without a pooled sentence.
\<close>

theorem keep_one_sentence_constraint:
  "(pooled d ! i \<noteq> [] \<and> i < length (ctxs_now st) \<longrightarrow>
      (\<exists>sel. sel \<noteq> [] \<and> sorted sel \<and> distinct sel
           \<and> set sel \<subseteq> {0..<length (pooled d ! i)}
           \<and> last (argsort (map fst (pooled d ! i))) \<in> set sel
           \<and> (\<forall>k<length (pooled d ! i).
                 fl_key (fst (pooled d ! i ! k))
                   \<le> fl_key (fst (pooled d ! i ! last (argsort (map fst (pooled d ! i))))))
           \<and> ctx_removal_indices (drop_sentences tk d L True st idx rank i)
               = ctx_removal_indices st
           \<and> new_token_ids_ctxs (drop_sentences tk d L True st idx rank i) idx
               = Some (concat (map (\<lambda>k. snd (snd (pooled d ! i ! k))) sel))
           \<and> ctx_text (ctxs_now (drop_sentences tk d L True st idx rank i) ! i)
               = sent_comp_text (split_token_ctxs d ! i)
                   (take (length (pooled d ! i)) (sents_list d ! i))
                   (drop (length (pooled d ! i)) (sents_list d ! i)) sel))
   \<and> (compress_sentences tk bs bt ctxs idxs sent_comp_len adaptive q p pw True = Inr (s, t, out)
      \<longrightarrow> (\<exists>d' budgets st'.
             prepare_sentences tk bs bt ctxs idxs q p = Inr d'
           \<and> sent_loop tk d' sent_comp_len True (initial_state budgets ctxs) (rev idxs) = Inr st'
           \<and> out = remove_ctxs (ctx_removal_indices st') (ctxs_now st')
           \<and> (\<forall>j\<in>set (ctx_removal_indices st'). j < length (pooled d') \<and> pooled d' ! j = [])))"
proof (intro conjI impI)
  assume a: "pooled d ! i \<noteq> [] \<and> i < length (ctxs_now st)"
  then have a1: "pooled d ! i \<noteq> []" and a2: "i < length (ctxs_now st)" by simp_all
  have mx: "\<forall>k<length (pooled d ! i).
                 fl_key (fst (pooled d ! i ! k))
                   \<le> fl_key (fst (pooled d ! i ! last (argsort (map fst (pooled d ! i)))))"
  proof (intro allI impI)
    fix k assume k: "k < length (pooled d ! i)"
    then have kl: "k < length (map fst (pooled d ! i))" by simp
    have "last (argsort (map fst (pooled d ! i))) \<in> set (argsort (map fst (pooled d ! i)))"
      using a1 by (intro last_in_set) (metis length_argsort length_map length_0_conv)
    then have ll: "last (argsort (map fst (pooled d ! i))) < length (pooled d ! i)" by simp
    from argsort_last_max [OF kl] k ll
    show "fl_key (fst (pooled d ! i ! k))
            \<le> fl_key (fst (pooled d ! i ! last (argsort (map fst (pooled d ! i)))))"
      by simp
  qed
  from keep_one_sentence [OF a1 a2, of tk L idx rank] mx
  show "\<exists>sel. sel \<noteq> [] \<and> sorted sel \<and> distinct sel
           \<and> set sel \<subseteq> {0..<length (pooled d ! i)}
           \<and> last (argsort (map fst (pooled d ! i))) \<in> set sel
           \<and> (\<forall>k<length (pooled d ! i).
                 fl_key (fst (pooled d ! i ! k))
                   \<le> fl_key (fst (pooled d ! i ! last (argsort (map fst (pooled d ! i))))))
           \<and> ctx_removal_indices (drop_sentences tk d L True st idx rank i)
               = ctx_removal_indices st
           \<and> new_token_ids_ctxs (drop_sentences tk d L True st idx rank i) idx
               = Some (concat (map (\<lambda>k. snd (snd (pooled d ! i ! k))) sel))
           \<and> ctx_text (ctxs_now (drop_sentences tk d L True st idx rank i) ! i)
               = sent_comp_text (split_token_ctxs d ! i)
                   (take (length (pooled d ! i)) (sents_list d ! i))
                   (drop (length (pooled d ! i)) (sents_list d ! i)) sel"
    by blast
next
  assume "compress_sentences tk bs bt ctxs idxs sent_comp_len adaptive q p pw True = Inr (s, t, out)"
  then obtain d' budgets st' where
    p: "prepare_sentences tk bs bt ctxs idxs q p = Inr d'"
    and l: "sent_loop tk d' sent_comp_len True (initial_state budgets ctxs) (rev idxs) = Inr st'"
    and f: "finish_sentences st' = Inr (s, t, out)"
    unfolding compress_sentences_def by (auto simp: bind_err_Inr_iff)
  from f have o: "out = remove_ctxs (ctx_removal_indices st') (ctxs_now st')"
    by (auto simp: finish_sentences_def Let_def bind_err_Inr_iff)
  have "\<forall>j\<in>set (ctx_removal_indices (initial_state budgets ctxs)).
           j < length (pooled d') \<and> pooled d' ! j = []"
    by (simp add: initial_state_def)
  from sent_loop_removal [OF l this] p l o
  show "\<exists>d' budgets st'.
             prepare_sentences tk bs bt ctxs idxs q p = Inr d'
           \<and> sent_loop tk d' sent_comp_len True (initial_state budgets ctxs) (rev idxs) = Inr st'
           \<and> out = remove_ctxs (ctx_removal_indices st') (ctxs_now st')
           \<and> (\<forall>j\<in>set (ctx_removal_indices st'). j < length (pooled d') \<and> pooled d' ! j = [])"
    by blast
qed

theorem keep_one_sentence_constraint_witness:
  "\<exists>d' budgets st'.
       prepare_sentences char_env batch_scores2 batch_token_ids2 ctxs2 [0, 1] ''q'' [] = Inr d'
     \<and> sent_loop char_env d' 40 True (initial_state budgets ctxs2) (rev [0, 1]) = Inr st'
     \<and> [\<lparr>ctx_text = ''Aa.'', title = None, org_idx = 1, ctx_score = Some (Fin 2)\<rparr>,
         \<lparr>ctx_text = '' Ee.'', title = None, org_idx = 2, ctx_score = Some (Fin 1)\<rparr>]
        = remove_ctxs (ctx_removal_indices st') (ctxs_now st')
     \<and> (\<forall>j\<in>set (ctx_removal_indices st'). j < length (pooled d') \<and> pooled d' ! j = [])"
proof -
  have e: "compress_sentences char_env batch_scores2 batch_token_ids2 ctxs2 [0, 1] 40 False
             ''q'' [] 1 True
         = Inr ([[5, 5, 5], [4, 4, 4]], [[21, 22, 23], [34, 35, 36]],
             [\<lparr>ctx_text = ''Aa.'', title = None, org_idx = 1, ctx_score = Some (Fin 2)\<rparr>,
              \<lparr>ctx_text = '' Ee.'', title = None, org_idx = 2, ctx_score = Some (Fin 1)\<rparr>])"
    by code_simp
  from keep_one_sentence_constraint [THEN conjunct2, rule_format, OF e]
  show ?thesis .
qed

section \<open>Properties of token selection\<close>

lemma length_slice: "length (slice a b xs) = min b (length xs) - a"
  by (simp add: slice_def)

lemma nth_slice: "j < length (slice a b xs) \<Longrightarrow> slice a b xs ! j = xs ! (a + j)"
proof -
  assume "j < length (slice a b xs)"
  then have j: "a + j < b" "a + j < length xs" by (auto simp: slice_def)
  then have "a \<le> length (take b xs)" by simp
  then have "drop a (take b xs) ! j = take b xs ! (a + j)" by (rule nth_drop)
  with j show ?thesis by (simp add: slice_def)
qed

lemma set_empty_token_indices:
  "set (map (\<lambda>j. j + start)
          (filter (\<lambda>j. slice start e ids ! j = (3::int)) [0..<length (slice start e ids)]))
     = {j. start \<le> j \<and> j < e \<and> j < length ids \<and> ids ! j = 3}"
proof (intro set_eqI iffI)
  fix x
  assume "x \<in> set (map (\<lambda>j. j + start)
          (filter (\<lambda>j. slice start e ids ! j = 3) [0..<length (slice start e ids)]))"
  then obtain j where j: "x = j + start" "j < length (slice start e ids)"
    "slice start e ids ! j = 3" by auto
  from j(2,3) have "ids ! (start + j) = 3" by (simp add: nth_slice)
  with j show "x \<in> {j. start \<le> j \<and> j < e \<and> j < length ids \<and> ids ! j = 3}"
    by (auto simp: length_slice add.commute)
next
  fix x
  assume "x \<in> {j. start \<le> j \<and> j < e \<and> j < length ids \<and> ids ! j = 3}"
  then have x: "start \<le> x" "x < e" "x < length ids" "ids ! x = 3" by auto
  then have l: "x - start < length (slice start e ids)" by (auto simp: length_slice)
  with x have "slice start e ids ! (x - start) = 3" by (simp add: nth_slice)
  with l x(1) show "x \<in> set (map (\<lambda>j. j + start)
          (filter (\<lambda>j. slice start e ids ! j = 3) [0..<length (slice start e ids)]))"
    by (auto intro!: image_eqI [of _ _ "x - start"])
qed

lemma set_cur_target_indices:
  "set (cur_target_indices ids st start e)
     = {j. start \<le> j \<and> j < e \<and> (j \<in> set st \<or> (j < length ids \<and> ids ! j = 3))}"
  unfolding cur_target_indices_def Let_def union1d_def
  by (simp only: set_sort set_remdups set_append set_empty_token_indices set_filter) auto

lemma sorted_cur_target_indices:
  "sorted (cur_target_indices ids st start e) \<and> distinct (cur_target_indices ids st start e)"
  by (simp add: cur_target_indices_def Let_def union1d_def)

lemma sentinel_positions_kept:
  assumes "list_all (\<lambda>j. j < length ids) (cur_target_indices ids st start e)"
  shows "filter (\<lambda>j. ids ! j = 3) (cur_target_indices ids st start e)
       = filter (\<lambda>j. ids ! j = 3) [start..<min e (length ids)]"
proof (rule sorted_distinct_set_unique)
  show "sorted (filter (\<lambda>j. ids ! j = 3) (cur_target_indices ids st start e))"
    using sorted_cur_target_indices by (simp add: sorted_wrt_filter)
  show "distinct (filter (\<lambda>j. ids ! j = 3) (cur_target_indices ids st start e))"
    using sorted_cur_target_indices by simp
  show "sorted (filter (\<lambda>j. ids ! j = 3) [start..<min e (length ids)])"
    by (simp add: sorted_wrt_filter)
  show "distinct (filter (\<lambda>j. ids ! j = 3) [start..<min e (length ids)])" by simp
  from assms have "\<forall>j\<in>set (cur_target_indices ids st start e). j < length ids"
    by (simp add: list_all_iff)
  then show "set (filter (\<lambda>j. ids ! j = 3) (cur_target_indices ids st start e))
      = set (filter (\<lambda>j. ids ! j = 3) [start..<min e (length ids)])"
    by (auto simp: set_cur_target_indices)
qed

lemma token_loop_nth:
  assumes "token_loop tk ids st start zs = Inr outs"
  shows "length outs = length zs
       \<and> (\<forall>k<length zs.
             \<exists>kept. new_batch_token_ids_filtered ids st
                       (if k = 0 then start else fst (zs ! (k - 1))) (fst (zs ! k)) = Inr kept
                  \<and> outs ! k = (snd (zs ! k))\<lparr>ctx_text := collapse_spaces (tok_decode tk kept)\<rparr>)"
  using assms
proof (induction zs arbitrary: start outs)
  case Nil
  then show ?case by simp
next
  case (Cons z zs)
  obtain cum_len c where z: "z = (cum_len, c)" by (cases z)
  from Cons.prems z obtain kept more where
    k: "new_batch_token_ids_filtered ids st start cum_len = Inr kept"
    and m: "token_loop tk ids st cum_len zs = Inr more"
    and o: "outs = c\<lparr>ctx_text := collapse_spaces (tok_decode tk kept)\<rparr> # more"
    by (auto simp: bind_err_Inr_iff)
  from Cons.IH [OF m] have ih1: "length more = length zs"
    and ih2: "\<forall>k<length zs.
             \<exists>kept. new_batch_token_ids_filtered ids st
                       (if k = 0 then cum_len else fst (zs ! (k - 1))) (fst (zs ! k)) = Inr kept
                  \<and> more ! k = (snd (zs ! k))\<lparr>ctx_text := collapse_spaces (tok_decode tk kept)\<rparr>"
    by auto
  have "\<forall>k<length (z # zs).
             \<exists>kept. new_batch_token_ids_filtered ids st
                       (if k = 0 then start else fst ((z # zs) ! (k - 1))) (fst ((z # zs) ! k))
                     = Inr kept
                  \<and> outs ! k = (snd ((z # zs) ! k))\<lparr>ctx_text := collapse_spaces (tok_decode tk kept)\<rparr>"
  proof (intro allI impI)
    fix k assume kl: "k < length (z # zs)"
    show "\<exists>kept. new_batch_token_ids_filtered ids st
                       (if k = 0 then start else fst ((z # zs) ! (k - 1))) (fst ((z # zs) ! k))
                     = Inr kept
                  \<and> outs ! k = (snd ((z # zs) ! k))\<lparr>ctx_text := collapse_spaces (tok_decode tk kept)\<rparr>"
    proof (cases k)
      case 0
      with k o z show ?thesis by simp
    next
      case (Suc j)
      with kl have jl: "j < length zs" by simp
      from ih2 jl obtain kept' where
        "new_batch_token_ids_filtered ids st
             (if j = 0 then cum_len else fst (zs ! (j - 1))) (fst (zs ! j)) = Inr kept'"
        "more ! j = (snd (zs ! j))\<lparr>ctx_text := collapse_spaces (tok_decode tk kept')\<rparr>"
        by blast
      with Suc o z show ?thesis by (cases j) simp_all
    qed
  qed
  with ih1 o show ?case by simp
qed

lemma pow2_powi: "pow2 k = 2 powi k"
  by (simp add: pow2_def power_int_def inverse_eq_divide power_one_over)

lemma pow2_pos [simp]: "0 < pow2 k"
  by (simp add: pow2_powi)

lemma pow2_nonneg [simp]: "0 \<le> pow2 k"
  by (simp add: pow2_powi)

lemma pow2_add: "pow2 (i + j) = pow2 i * pow2 j"
  by (simp add: pow2_powi power_int_add)

lemma pow2_mono: "i \<le> j \<Longrightarrow> pow2 i \<le> pow2 j"
  by (simp add: pow2_powi power_int_increasing)

lemma pow2_nat: "pow2 (int n) = 2 ^ n"
  by (simp add: pow2_def)

lemma bit_length_bounds:
  "0 < n \<Longrightarrow> 2 ^ (bit_length n - 1) \<le> n \<and> n < 2 ^ bit_length n"
proof (induction n rule: bit_length.induct)
  case (1 n)
  show ?case
  proof (cases "n div 2 \<le> 0")
    case True
    with 1(2) have "n = 1" by linarith
    then show ?thesis by (simp add: bit_length.simps)
  next
    case False
    then have p: "0 < n div 2" by simp
    from 1(1) [OF _ p] 1(2)
    have ih: "2 ^ (bit_length (n div 2) - 1) \<le> n div 2" "n div 2 < 2 ^ bit_length (n div 2)"
      by auto
    have bl: "bit_length n = Suc (bit_length (n div 2))"
      using 1(2) by (subst bit_length.simps) simp
    have pos: "0 < bit_length (n div 2)"
      using p by (subst bit_length.simps) simp
    then obtain m where m: "bit_length (n div 2) = Suc m" by (cases "bit_length (n div 2)") auto
    from ih(1) m have "2 * 2 ^ m \<le> 2 * (n div 2)" by simp
    also have "\<dots> \<le> n" by simp
    finally have a: "2 ^ (bit_length n - 1) \<le> n" by (simp add: bl m)
    from ih(2) have "n div 2 + 1 \<le> 2 ^ bit_length (n div 2)" by simp
    then have "2 * (n div 2) + 2 \<le> 2 * 2 ^ bit_length (n div 2)" by simp
    moreover have "n < 2 * (n div 2) + 2" by linarith
    ultimately have b: "n < 2 ^ bit_length n" by (simp add: bl)
    from a b show ?thesis ..
  qed
qed

lemma binade_bounds:
  assumes "0 < x"
  shows "pow2 (binade x) \<le> x \<and> x < pow2 (binade x + 1)"
proof -
  obtain a b where q: "quotient_of x = (a, b)" by (cases "quotient_of x")
  then have b: "0 < b" and x: "x = of_int a / of_int b"
    using quotient_of_denom_pos quotient_of_div by blast+
  from assms x b have a: "0 < a" by (simp add: zero_less_divide_iff)
  define la where "la = bit_length a"
  define lb where "lb = bit_length b"
  define k where "k = int la - int lb"
  from bit_length_bounds [OF a] have a1: "2 ^ (la - 1) \<le> a" and a2: "a < 2 ^ la"
    by (simp_all add: la_def)
  from bit_length_bounds [OF b] have b1: "2 ^ (lb - 1) \<le> b" and b2: "b < 2 ^ lb"
    by (simp_all add: lb_def)
  have la0: "0 < la" using a2 a by (cases la) auto
  have lb0: "0 < lb" using b2 b by (cases lb) auto
  have ra1: "pow2 (int la - 1) \<le> of_int a"
  proof -
    have "pow2 (int la - 1) = pow2 (int (la - 1))" using la0 by (simp add: of_nat_diff)
    also have "\<dots> = of_int (2 ^ (la - 1))" by (simp add: pow2_nat)
    also have "\<dots> \<le> of_int a" using a1 by (simp only: of_int_le_iff)
    finally show ?thesis .
  qed
  have ra2: "of_int a < pow2 (int la)"
  proof -
    have "(of_int a :: rat) < of_int (2 ^ la)" using a2 by (simp only: of_int_less_iff)
    then show ?thesis by (simp add: pow2_nat)
  qed
  have rb1: "pow2 (int lb - 1) \<le> of_int b"
  proof -
    have "pow2 (int lb - 1) = pow2 (int (lb - 1))" using lb0 by (simp add: of_nat_diff)
    also have "\<dots> = of_int (2 ^ (lb - 1))" by (simp add: pow2_nat)
    also have "\<dots> \<le> of_int b" using b1 by (simp only: of_int_le_iff)
    finally show ?thesis .
  qed
  have rb2: "of_int b < pow2 (int lb)"
  proof -
    have "(of_int b :: rat) < of_int (2 ^ lb)" using b2 by (simp only: of_int_less_iff)
    then show ?thesis by (simp add: pow2_nat)
  qed
  have bpos: "(0::rat) < of_int b" using b by simp
  have lo: "pow2 (k - 1) < x"
  proof -
    have "pow2 (k - 1) * of_int b < pow2 (k - 1) * pow2 (int lb)"
      using rb2 by simp
    also have "\<dots> = pow2 (int la - 1)"
      by (simp add: pow2_add [symmetric] k_def)
    also have "\<dots> \<le> of_int a" by (rule ra1)
    finally show ?thesis using bpos by (simp add: x pos_less_divide_eq)
  qed
  have hi: "x < pow2 (k + 1)"
  proof -
    have "of_int a < pow2 (int la)" by (rule ra2)
    also have "\<dots> = pow2 (k + 1) * pow2 (int lb - 1)"
      by (simp add: pow2_add [symmetric] k_def)
    also have "\<dots> \<le> pow2 (k + 1) * of_int b"
      using rb1 by simp
    finally show ?thesis using bpos by (simp add: x pos_divide_less_eq)
  qed
  have bn: "binade x = (if pow2 k \<le> x then k else k - 1)"
    by (simp add: binade_def q k_def la_def lb_def Let_def)
  show ?thesis
  proof (cases "pow2 k \<le> x")
    case True
    with bn hi show ?thesis by simp
  next
    case False
    with bn lo show ?thesis by simp
  qed
qed

lemma round_half_even_err: "\<bar>of_int (round_half_even q) - q\<bar> \<le> 1 / 2"
proof -
  have "of_int \<lfloor>q\<rfloor> \<le> q" "q < of_int \<lfloor>q\<rfloor> + 1" by linarith+
  then show ?thesis
    by (auto simp: round_half_even_def Let_def abs_le_iff)
qed

lemma round_half_even_nonneg: "0 \<le> q \<Longrightarrow> 0 \<le> round_half_even q"
  by (auto simp: round_half_even_def Let_def)

lemma round_half_even_int [simp]: "round_half_even (of_int z) = z"
  by (simp add: round_half_even_def Let_def)


lemma to_double_nonneg:
  assumes "0 \<le> x" and "to_double x = Fin y"
  shows "0 \<le> y"
proof (cases "x = 0")
  case True
  with assms show ?thesis by (simp add: to_double_def)
next
  case False
  with assms(1) have p: "0 < x" by simp
  define e where "e = max (binade x) (- 1022)"
  define m where "m = round_half_even (x / pow2 (e - 52))"
  have "0 \<le> x / pow2 (e - 52)" using p by simp
  then have m0: "0 \<le> m" unfolding m_def by (rule round_half_even_nonneg)
  from assms(2) p have "y = of_int m * pow2 (e - 52)"
    by (simp add: to_double_def Let_def e_def [symmetric] m_def [symmetric] split: if_splits)
  with m0 show ?thesis by simp
qed

lemma to_double_err:
  assumes "to_double x = Fin y"
  shows "\<bar>y - x\<bar> \<le> max (\<bar>x\<bar> * pow2 (- 53)) (pow2 (- 1075))"
proof (cases "x = 0")
  case True
  with assms show ?thesis by (simp add: to_double_def)
next
  case False
  then have ap: "0 < \<bar>x\<bar>" by simp
  define e where "e = max (binade \<bar>x\<bar>) (- 1022)"
  define u where "u = pow2 (e - 52)"
  define m where "m = round_half_even (\<bar>x\<bar> / u)"
  have up: "0 < u" by (simp add: u_def)
  from assms False have y: "y = (if 0 < x then 1 else - 1) * of_int m * u"
    by (simp add: to_double_def Let_def e_def [symmetric] u_def [symmetric] m_def [symmetric]
          split: if_splits)
  have "\<bar>y - x\<bar> = \<bar>of_int m * u - \<bar>x\<bar>\<bar>"
    unfolding y by (cases "0 < x") (simp_all add: abs_minus_commute [of _ x] algebra_simps)
  also have "\<dots> = \<bar>of_int m - \<bar>x\<bar> / u\<bar> * u"
  proof -
    have "of_int m * u - \<bar>x\<bar> = (of_int m - \<bar>x\<bar> / u) * u"
      using up by (simp add: field_simps)
    then show ?thesis using up by (simp add: abs_mult)
  qed
  also have "\<dots> \<le> (1 / 2) * u"
    using round_half_even_err [of "\<bar>x\<bar> / u"] up unfolding m_def
    by (intro mult_right_mono) simp_all
  also have "\<dots> = pow2 (e - 53)"
  proof -
    have "pow2 (e - 52) = pow2 (e - 53) * pow2 1" by (simp add: pow2_add [symmetric])
    then show ?thesis by (simp add: u_def pow2_def)
  qed
  finally have err: "\<bar>y - x\<bar> \<le> pow2 (e - 53)" .
  show ?thesis
  proof (cases "- 1022 \<le> binade \<bar>x\<bar>")
    case True
    then have "e = binade \<bar>x\<bar>" by (simp add: e_def)
    with binade_bounds [OF ap] have "pow2 e \<le> \<bar>x\<bar>" by simp
    moreover have "pow2 e = pow2 (e - 53) * pow2 53" by (simp add: pow2_add [symmetric])
    ultimately have "pow2 (e - 53) * pow2 53 * pow2 (- 53) \<le> \<bar>x\<bar> * pow2 (- 53)"
      by (intro mult_right_mono) simp_all
    moreover have "pow2 53 * pow2 (- 53) = 1" by (simp add: pow2_add [symmetric] pow2_def)
    ultimately have "pow2 (e - 53) \<le> \<bar>x\<bar> * pow2 (- 53)" by (simp add: mult.assoc)
    with err show ?thesis by simp
  next
    case False
    then have "e = - 1022" by (simp add: e_def)
    then have "pow2 (e - 53) = pow2 (- 1075)" by simp
    with err show ?thesis by simp
  qed
qed

lemma pow2_less_cancel: "pow2 i < pow2 j \<Longrightarrow> i < j"
  using pow2_mono [of j i] by (cases "i < j") auto

lemma to_double_of_nat:
  assumes "n < 2 ^ 53"
  shows "to_double (of_nat n) = Fin (of_nat n)"
proof (cases "n = 0")
  case True
  then show ?thesis by (simp add: to_double_def)
next
  case False
  define x :: rat where "x = of_nat n"
  from False have xp: "0 < x" by (simp add: x_def)
  then have ax: "\<bar>x\<bar> = x" by simp
  from False have x1: "1 \<le> x" by (simp add: x_def)
  from binade_bounds [OF xp] have b1: "pow2 (binade x) \<le> x" and b2: "x < pow2 (binade x + 1)"
    by simp_all
  have "x < pow2 53"
  proof -
    have "(of_nat n :: rat) < of_nat (2 ^ 53)" using assms by (simp only: of_nat_less_iff)
    then show ?thesis by (simp add: x_def pow2_def)
  qed
  with b1 have "pow2 (binade x) < pow2 53" by simp
  then have bu: "binade x < 53" by (rule pow2_less_cancel)
  have "pow2 0 \<le> x" using x1 by (simp add: pow2_def)
  with b2 have "pow2 0 < pow2 (binade x + 1)" by simp
  then have bl: "0 \<le> binade x" using pow2_less_cancel [of 0 "binade x + 1"] by simp
  define e where "e = binade x"
  define s where "s = nat (52 - e)"
  have em: "max (binade x) (- 1022) = e" using bl by (simp add: e_def)
  have ue: "pow2 (e - 52) = 1 / 2 ^ s"
    using bu bl by (auto simp: pow2_def s_def e_def)
  have q: "x / pow2 (e - 52) = of_int (int n * 2 ^ s)"
    by (simp add: ue x_def)
  have m: "round_half_even (x / pow2 (e - 52)) = int n * 2 ^ s"
    unfolding q by (rule round_half_even_int)
  have bk: "of_int (int n * 2 ^ s) * pow2 (e - 52) = x"
    by (simp add: ue x_def)
  have e1023: "\<not> (1023 < e \<or> (e = 1023 \<and> 9007199254740992 \<le> int n * 2 ^ s))"
    using bu by (simp add: e_def)
  have "to_double x = Fin (of_int (int n * 2 ^ s) * pow2 (e - 52))"
    unfolding to_double_def Let_def ax em m using xp e1023 by simp
  then show ?thesis unfolding bk by (simp add: x_def)
qed

lemma sorted_target_indices_nonneg:
  assumes "0 \<le> target_len"
  shows "sorted_target_indices scores target_len
       = sort (take (nat target_len) (rev (argsort (map Fin scores))))"
  using assms by (simp add: sorted_target_indices_def py_slice_to_def py_bound_def)

lemma target_len_of_nonneg:
  assumes "0 \<le> token_lamb" and "target_len_of n token_lamb = Inr t"
  shows "\<exists>nf lf p. to_double (of_nat n) = Fin nf
           \<and> (n < 2 ^ 53 \<longrightarrow> nf = of_nat n)
           \<and> to_double token_lamb = Fin lf
           \<and> \<bar>lf - token_lamb\<bar> \<le> max (\<bar>token_lamb\<bar> * pow2 (- 53)) (pow2 (- 1075))
           \<and> fl_mul (Fin nf) (Fin lf) = Fin p
           \<and> \<bar>p - nf * lf\<bar> \<le> max (\<bar>nf * lf\<bar> * pow2 (- 53)) (pow2 (- 1075))
           \<and> 0 \<le> p \<and> t = \<lfloor>p\<rfloor> \<and> 0 \<le> t"
proof -
  from assms(2) obtain nf where nf: "to_double (of_nat n) = Fin nf"
    by (auto simp: target_len_of_def split: fl.splits)
  from assms(2) nf obtain lf where lf: "to_double token_lamb = Fin lf"
    by (cases "to_double token_lamb") (auto simp: target_len_of_def split: if_splits)
  from assms(2) nf lf obtain p where p: "to_double (nf * lf) = Fin p" and t: "t = trunc_rat p"
    by (auto simp: target_len_of_def split: fl.splits)
  have n0: "0 \<le> nf" using to_double_nonneg [OF _ nf] by simp
  have l0: "0 \<le> lf" using to_double_nonneg [OF assms(1) lf] .
  have p0: "0 \<le> p" using to_double_nonneg [OF _ p] n0 l0 by simp
  have ex: "n < 2 ^ 53 \<longrightarrow> nf = of_nat n"
    using to_double_of_nat [of n] nf by auto
  from p0 t have tf: "t = \<lfloor>p\<rfloor>" and t0: "0 \<le> t" by (simp_all add: trunc_rat_def)
  from nf ex lf to_double_err [OF lf] p to_double_err [OF p] p0 tf t0
  show ?thesis by (intro exI [of _ nf] exI [of _ lf] exI [of _ p]) simp
qed

text \<open>
  Two products whose rounding decides the count: \<^verbatim>\<open>int(50 * 0.58)\<close> is 28 (the
  float \<^verbatim>\<open>0.58\<close> is below \<open>29/50\<close>, and the product is rounded down), and
  \<^verbatim>\<open>int(10 * 0.3)\<close> is 3 (the float \<^verbatim>\<open>0.3\<close> is below \<open>3/10\<close>, and the product
  is rounded up to 3.0).
\<close>

lemma target_len_of_examples:
  "target_len_of 50 (29 / 50) = Inr 28"
  "target_len_of 10 (3 / 10) = Inr 3"
  "target_len_of 10 (5404319552844595 / 18014398509481984) = Inr 3"
  by code_simp+

lemma top_positions:
  assumes "i \<in> set (take m (rev (argsort (map Fin scores))))"
    and "j < length scores" and "j \<notin> set (take m (rev (argsort (map Fin scores))))"
  shows "scores ! j \<le> scores ! i"
proof -
  define as where "as = argsort (map Fin scores)"
  define n where "n = length scores"
  have len: "length as = n" by (simp add: as_def n_def argsort_def)
  have setas: "set as = {0..<n}" by (simp add: as_def n_def argsort_def)
  have srt: "sorted (map (\<lambda>i. fl_key (map Fin scores ! i)) as)"
    unfolding as_def argsort_def by (rule sorted_sort_key)
  have tk: "take m (rev as) = rev (drop (n - m) as)"
    by (simp add: take_rev len)
  from assms(1) have i: "i \<in> set (drop (n - m) as)" by (simp add: as_def [symmetric] tk)
  from assms(2) have "j \<in> set as" by (simp add: setas n_def)
  then have "j \<in> set (take (n - m) as) \<union> set (drop (n - m) as)"
    by (metis append_take_drop_id set_append)
  with assms(3) have j: "j \<in> set (take (n - m) as)" by (simp add: as_def [symmetric] tk)
  have "as = take (n - m) as @ drop (n - m) as" by simp
  with srt have "sorted (map (\<lambda>i. fl_key (map Fin scores ! i)) (take (n - m) as)
                         @ map (\<lambda>i. fl_key (map Fin scores ! i)) (drop (n - m) as))"
    by (metis map_append)
  with i j have le: "fl_key (map Fin scores ! j) \<le> fl_key (map Fin scores ! i)"
    by (auto simp: sorted_append)
  from i have "i \<in> set as" by (meson in_set_dropD)
  then have il: "i < length scores" by (simp add: setas n_def)
  from le il assms(2) show ?thesis by (simp add: less_eq_prod_def)
qed

lemma nth_cum_len_list:
  "k < length lens \<Longrightarrow> cum_len_list lens ! k = sum_list (take (Suc k) lens)"
  by (simp add: cum_len_list_def)

text \<open>
  Claim C5. In a run of \<^verbatim>\<open>compress_tokens\<close> that returns, \<^verbatim>\<open>target_len\<close> has
  been computed, and the positions kept for passage \<open>k\<close> are exactly the
  positions of its range that are among \<^verbatim>\<open>sorted_target_indices\<close> or carry
  the token id 3: every position of the range with token id 3 is kept,
  whatever its score. The new text decodes the token ids at the kept positions
  without the ids equal to 2. When \<^verbatim>\<open>token_lamb\<close> is not negative,
  \<^verbatim>\<open>target_len\<close> is the floor of the float product of the number of tokens and
  \<^verbatim>\<open>token_lamb\<close> (the number of tokens is exact as a float below \<open>2^53\<close>;
  the product is rounded once, with a relative error of at most \<open>2^-53\<close>),
  \<^verbatim>\<open>sorted_target_indices\<close> are the first \<^verbatim>\<open>target_len\<close> positions in descending
  order of score, and no position outside them has a higher score than one of
  them.
\<close>

theorem token_sentinel_retained:
  assumes "compress_tokens batch_scores batch_token_ids ctxs token_lamb tk = Inr out"
  shows "\<exists>target_len.
         target_len_of (length (concat batch_scores)) token_lamb = Inr target_len
       \<and> length out = length ctxs
       \<and> (\<forall>k. k < length batch_scores \<and> k < length ctxs \<longrightarrow>
            (let ids = concat batch_token_ids;
                 target = sorted_target_indices (concat batch_scores) target_len;
                 start = sum_list (take k (map length batch_scores));
                 e = sum_list (take (Suc k) (map length batch_scores));
                 kept = cur_target_indices ids target start e
             in (\<forall>j. start \<le> j \<and> j < e \<and> j < length ids \<and> ids ! j = 3 \<longrightarrow> j \<in> set kept)
              \<and> set kept = {j. start \<le> j \<and> j < e
                                \<and> (j \<in> set target \<or> (j < length ids \<and> ids ! j = 3))}
              \<and> filter (\<lambda>j. ids ! j = 3) kept
                  = filter (\<lambda>j. ids ! j = 3) [start..<min e (length ids)]
              \<and> ctx_text (out ! k)
                  = collapse_spaces (tok_decode tk
                      (filter (\<lambda>t. t \<noteq> 2) (map (\<lambda>j. ids ! j) kept)))))
       \<and> (0 \<le> token_lamb \<longrightarrow>
             (\<exists>nf lf p. to_double (of_nat (length (concat batch_scores))) = Fin nf
                 \<and> (length (concat batch_scores) < 2 ^ 53
                      \<longrightarrow> nf = of_nat (length (concat batch_scores)))
                 \<and> to_double token_lamb = Fin lf
                 \<and> \<bar>lf - token_lamb\<bar> \<le> max (\<bar>token_lamb\<bar> * pow2 (- 53)) (pow2 (- 1075))
                 \<and> fl_mul (Fin nf) (Fin lf) = Fin p
                 \<and> \<bar>p - nf * lf\<bar> \<le> max (\<bar>nf * lf\<bar> * pow2 (- 53)) (pow2 (- 1075))
                 \<and> 0 \<le> p \<and> target_len = \<lfloor>p\<rfloor> \<and> 0 \<le> target_len)
           \<and> sorted_target_indices (concat batch_scores) target_len
               = sort (take (nat target_len) (rev (argsort (map Fin (concat batch_scores)))))
           \<and> (\<forall>i j. i \<in> set (sorted_target_indices (concat batch_scores) target_len)
                      \<and> j < length (concat batch_scores)
                      \<and> j \<notin> set (sorted_target_indices (concat batch_scores) target_len)
                    \<longrightarrow> concat batch_scores ! j \<le> concat batch_scores ! i))"
proof -
  define ids where "ids = concat batch_token_ids"
  define lens where "lens = map length batch_scores"
  define zs where "zs = zip (cum_len_list lens) ctxs"
  from assms obtain target_len outs where
    tg: "target_len_of (length (concat batch_scores)) token_lamb = Inr target_len"
    and tl: "token_loop tk ids (sorted_target_indices (concat batch_scores) target_len) 0 zs
               = Inr outs"
    and o: "out = outs @ drop (length lens) ctxs"
    unfolding compress_tokens_def Let_def ids_def lens_def zs_def
    by (auto simp: bind_err_Inr_iff split: if_splits)
  define target where "target = sorted_target_indices (concat batch_scores) target_len"
  note tl = tl [folded target_def]
  from token_loop_nth [OF tl] have lo: "length outs = length zs"
    and nth: "\<forall>k<length zs.
             \<exists>kept. new_batch_token_ids_filtered ids target
                       (if k = 0 then 0 else fst (zs ! (k - 1))) (fst (zs ! k)) = Inr kept
                  \<and> outs ! k = (snd (zs ! k))\<lparr>ctx_text := collapse_spaces (tok_decode tk kept)\<rparr>"
    by auto
  have lz: "length zs = min (length lens) (length ctxs)"
    by (simp add: zs_def cum_len_list_def)
  have c1: "length out = length ctxs" unfolding o using lo lz by auto
  have c2: "\<forall>k. k < length batch_scores \<and> k < length ctxs \<longrightarrow>
            (let ids = concat batch_token_ids;
                 target = sorted_target_indices (concat batch_scores) target_len;
                 start = sum_list (take k (map length batch_scores));
                 e = sum_list (take (Suc k) (map length batch_scores));
                 kept = cur_target_indices ids target start e
             in (\<forall>j. start \<le> j \<and> j < e \<and> j < length ids \<and> ids ! j = 3 \<longrightarrow> j \<in> set kept)
              \<and> set kept = {j. start \<le> j \<and> j < e
                                \<and> (j \<in> set target \<or> (j < length ids \<and> ids ! j = 3))}
              \<and> filter (\<lambda>j. ids ! j = 3) kept
                  = filter (\<lambda>j. ids ! j = 3) [start..<min e (length ids)]
              \<and> ctx_text (out ! k)
                  = collapse_spaces (tok_decode tk
                      (filter (\<lambda>t. t \<noteq> 2) (map (\<lambda>j. ids ! j) kept))))"
  proof (intro allI impI)
    fix k assume k: "k < length batch_scores \<and> k < length ctxs"
    then have kz: "k < length zs" and kl: "k < length lens" by (simp_all add: lz lens_def)
    define start where "start = sum_list (take k lens)"
    define e where "e = sum_list (take (Suc k) lens)"
    define kept where "kept = cur_target_indices ids target start e"
    have fz: "fst (zs ! k) = e"
      using kz kl by (simp add: zs_def e_def nth_cum_len_list cum_len_list_def)
    have sz: "(if k = 0 then 0 else fst (zs ! (k - 1))) = start"
    proof (cases k)
      case 0
      then show ?thesis by (simp add: start_def)
    next
      case (Suc m)
      with kz kl have "fst (zs ! m) = sum_list (take (Suc m) lens)"
        by (simp add: zs_def nth_cum_len_list cum_len_list_def)
      with Suc show ?thesis by (simp add: start_def)
    qed
    from nth kz obtain kept_ids where
      nb: "new_batch_token_ids_filtered ids target start e = Inr kept_ids"
      and ok: "outs ! k = (snd (zs ! k))\<lparr>ctx_text := collapse_spaces (tok_decode tk kept_ids)\<rparr>"
      unfolding fz [symmetric] sz [symmetric] by blast
    from nb have la: "list_all (\<lambda>j. j < length ids) kept"
      and ki: "kept_ids = filter (\<lambda>t. t \<noteq> 2) (map (\<lambda>j. ids ! j) kept)"
      by (auto simp: new_batch_token_ids_filtered_def take_rows_def kept_def bind_err_Inr_iff
            split: if_splits)
    have s: "set kept = {j. start \<le> j \<and> j < e
                                \<and> (j \<in> set target \<or> (j < length ids \<and> ids ! j = 3))}"
      unfolding kept_def by (rule set_cur_target_indices)
    then have a1: "\<forall>j. start \<le> j \<and> j < e \<and> j < length ids \<and> ids ! j = 3 \<longrightarrow> j \<in> set kept"
      by blast
    have a3: "filter (\<lambda>j. ids ! j = 3) kept
                  = filter (\<lambda>j. ids ! j = 3) [start..<min e (length ids)]"
      unfolding kept_def using la [unfolded kept_def] by (rule sentinel_positions_kept)
    have "out ! k = outs ! k" unfolding o using kz lo by (simp add: nth_append)
    with ok ki have a4: "ctx_text (out ! k)
                  = collapse_spaces (tok_decode tk
                      (filter (\<lambda>t. t \<noteq> 2) (map (\<lambda>j. ids ! j) kept)))"
      by simp
    from a1 s a3 a4
    show "(let ids = concat batch_token_ids;
                 target = sorted_target_indices (concat batch_scores) target_len;
                 start = sum_list (take k (map length batch_scores));
                 e = sum_list (take (Suc k) (map length batch_scores));
                 kept = cur_target_indices ids target start e
             in (\<forall>j. start \<le> j \<and> j < e \<and> j < length ids \<and> ids ! j = 3 \<longrightarrow> j \<in> set kept)
              \<and> set kept = {j. start \<le> j \<and> j < e
                                \<and> (j \<in> set target \<or> (j < length ids \<and> ids ! j = 3))}
              \<and> filter (\<lambda>j. ids ! j = 3) kept
                  = filter (\<lambda>j. ids ! j = 3) [start..<min e (length ids)]
              \<and> ctx_text (out ! k)
                  = collapse_spaces (tok_decode tk
                      (filter (\<lambda>t. t \<noteq> 2) (map (\<lambda>j. ids ! j) kept))))"
      unfolding Let_def kept_def start_def e_def ids_def target_def lens_def
      by (intro conjI)
  qed
  have c3: "0 \<le> token_lamb \<longrightarrow>
             (\<exists>nf lf p. to_double (of_nat (length (concat batch_scores))) = Fin nf
                 \<and> (length (concat batch_scores) < 2 ^ 53
                      \<longrightarrow> nf = of_nat (length (concat batch_scores)))
                 \<and> to_double token_lamb = Fin lf
                 \<and> \<bar>lf - token_lamb\<bar> \<le> max (\<bar>token_lamb\<bar> * pow2 (- 53)) (pow2 (- 1075))
                 \<and> fl_mul (Fin nf) (Fin lf) = Fin p
                 \<and> \<bar>p - nf * lf\<bar> \<le> max (\<bar>nf * lf\<bar> * pow2 (- 53)) (pow2 (- 1075))
                 \<and> 0 \<le> p \<and> target_len = \<lfloor>p\<rfloor> \<and> 0 \<le> target_len)
           \<and> sorted_target_indices (concat batch_scores) target_len
               = sort (take (nat target_len) (rev (argsort (map Fin (concat batch_scores)))))
           \<and> (\<forall>i j. i \<in> set (sorted_target_indices (concat batch_scores) target_len)
                      \<and> j < length (concat batch_scores)
                      \<and> j \<notin> set (sorted_target_indices (concat batch_scores) target_len)
                    \<longrightarrow> concat batch_scores ! j \<le> concat batch_scores ! i)"
  proof
    assume nn: "0 \<le> token_lamb"
    from target_len_of_nonneg [OF nn tg]
    have fp: "(\<exists>nf lf p. to_double (of_nat (length (concat batch_scores))) = Fin nf
                 \<and> (length (concat batch_scores) < 2 ^ 53
                      \<longrightarrow> nf = of_nat (length (concat batch_scores)))
                 \<and> to_double token_lamb = Fin lf
                 \<and> \<bar>lf - token_lamb\<bar> \<le> max (\<bar>token_lamb\<bar> * pow2 (- 53)) (pow2 (- 1075))
                 \<and> fl_mul (Fin nf) (Fin lf) = Fin p
                 \<and> \<bar>p - nf * lf\<bar> \<le> max (\<bar>nf * lf\<bar> * pow2 (- 53)) (pow2 (- 1075))
                 \<and> 0 \<le> p \<and> target_len = \<lfloor>p\<rfloor> \<and> 0 \<le> target_len)"
      .
    then have t0: "0 \<le> target_len" by blast
    note eq = sorted_target_indices_nonneg [OF t0, of "concat batch_scores"]
    have tp: "\<forall>i j. i \<in> set (sorted_target_indices (concat batch_scores) target_len)
                      \<and> j < length (concat batch_scores)
                      \<and> j \<notin> set (sorted_target_indices (concat batch_scores) target_len)
                    \<longrightarrow> concat batch_scores ! j \<le> concat batch_scores ! i"
      unfolding eq set_sort using top_positions by blast
    from fp eq tp show "(\<exists>nf lf p. to_double (of_nat (length (concat batch_scores))) = Fin nf
                 \<and> (length (concat batch_scores) < 2 ^ 53
                      \<longrightarrow> nf = of_nat (length (concat batch_scores)))
                 \<and> to_double token_lamb = Fin lf
                 \<and> \<bar>lf - token_lamb\<bar> \<le> max (\<bar>token_lamb\<bar> * pow2 (- 53)) (pow2 (- 1075))
                 \<and> fl_mul (Fin nf) (Fin lf) = Fin p
                 \<and> \<bar>p - nf * lf\<bar> \<le> max (\<bar>nf * lf\<bar> * pow2 (- 53)) (pow2 (- 1075))
                 \<and> 0 \<le> p \<and> target_len = \<lfloor>p\<rfloor> \<and> 0 \<le> target_len)
           \<and> sorted_target_indices (concat batch_scores) target_len
               = sort (take (nat target_len) (rev (argsort (map Fin (concat batch_scores)))))
           \<and> (\<forall>i j. i \<in> set (sorted_target_indices (concat batch_scores) target_len)
                      \<and> j < length (concat batch_scores)
                      \<and> j \<notin> set (sorted_target_indices (concat batch_scores) target_len)
                    \<longrightarrow> concat batch_scores ! j \<le> concat batch_scores ! i)"
      by (intro conjI)
  qed
  from tg c1 c2 c3 show ?thesis by (intro exI [of _ target_len] conjI)
qed

theorem token_sentinel_retained_witness:
  "3 \<in> set (cur_target_indices (concat token_ids2)
               (sorted_target_indices (concat token_scores2) 6)
               (sum_list (take 0 (map length token_scores2)))
               (sum_list (take (Suc 0) (map length token_scores2))))"
proof -
  let ?ids = "concat token_ids2"
  let ?start = "sum_list (take 0 (map length token_scores2))"
  let ?e = "sum_list (take (Suc 0) (map length token_scores2))"
  have e: "compress_tokens token_scores2 token_ids2 ctxs2 (1/2) char_env
         = Inr [\<lparr>ctx_text = [CHR 0x15, CHR 0x16, CHR 0x03], title = None, org_idx = 1,
                  ctx_score = Some (Fin 2)\<rparr>,
                \<lparr>ctx_text = [CHR 0x22, CHR 0x23, CHR 0x24], title = None, org_idx = 2,
                  ctx_score = Some (Fin 1)\<rparr>]"
    by code_simp
  have t6: "target_len_of (length (concat token_scores2)) (1/2) = Inr 6"
    by code_simp
  have k: "0 < length token_scores2 \<and> 0 < length ctxs2"
    by (simp add: token_scores2_def ctxs2_def)
  from token_sentinel_retained [OF e] obtain target_len where
    tg: "target_len_of (length (concat token_scores2)) (1/2) = Inr target_len"
    and w: "\<forall>k. k < length token_scores2 \<and> k < length ctxs2 \<longrightarrow>
            (let ids = concat token_ids2;
                 target = sorted_target_indices (concat token_scores2) target_len;
                 start = sum_list (take k (map length token_scores2));
                 e = sum_list (take (Suc k) (map length token_scores2));
                 kept = cur_target_indices ids target start e
             in (\<forall>j. start \<le> j \<and> j < e \<and> j < length ids \<and> ids ! j = 3 \<longrightarrow> j \<in> set kept)
              \<and> set kept = {j. start \<le> j \<and> j < e
                                \<and> (j \<in> set target \<or> (j < length ids \<and> ids ! j = 3))}
              \<and> filter (\<lambda>j. ids ! j = 3) kept
                  = filter (\<lambda>j. ids ! j = 3) [start..<min e (length ids)]
              \<and> ctx_text ([\<lparr>ctx_text = [CHR 0x15, CHR 0x16, CHR 0x03], title = None, org_idx = 1,
                  ctx_score = Some (Fin 2)\<rparr>,
                \<lparr>ctx_text = [CHR 0x22, CHR 0x23, CHR 0x24], title = None, org_idx = 2,
                  ctx_score = Some (Fin 1)\<rparr>] ! k)
                  = collapse_spaces (tok_decode char_env
                      (filter (\<lambda>t. t \<noteq> 2) (map (\<lambda>j. ids ! j) kept))))"
    by blast
  from tg t6 have t: "target_len = 6" by simp
  let ?kept = "cur_target_indices ?ids (sorted_target_indices (concat token_scores2) 6)
                 ?start ?e"
  from w [THEN spec, THEN mp, OF k, unfolded Let_def t]
  have a: "\<forall>j. ?start \<le> j \<and> j < ?e \<and> j < length ?ids \<and> ?ids ! j = 3 \<longrightarrow> j \<in> set ?kept"
    by (rule conjunct1)
  have c: "?start \<le> 3 \<and> 3 < ?e \<and> 3 < length ?ids \<and> ?ids ! 3 = 3"
    by (simp add: token_scores2_def token_ids2_def)
  from a [THEN spec, THEN mp, OF c] show ?thesis .
qed

section \<open>Order of the passages through the stages\<close>

lemma subseq_map_nth_offset:
  assumes "sorted is" and "distinct is"
    and "\<forall>j\<in>set is. off \<le> j \<and> j < off + length ys"
  shows "subseq (map (\<lambda>j. ys ! (j - off)) is) ys"
  using assms
proof (induction "is" arbitrary: off ys)
  case Nil
  then show ?case by simp
next
  case (Cons i "is")
  from Cons.prems have i: "off \<le> i" "i < off + length ys" by auto
  define m where "m = i - off"
  have ml: "m < length ys" using i by (simp add: m_def)
  define ys' where "ys' = drop (Suc m) ys"
  have split: "ys = take m ys @ ys ! m # ys'"
    using ml by (simp add: ys'_def id_take_nth_drop [symmetric])
  from Cons.prems(1,2) have gt: "\<forall>j\<in>set is. i < j"
    by (auto simp: le_less)
  have bnd: "\<forall>j\<in>set is. Suc i \<le> j \<and> j < Suc i + length ys'"
  proof
    fix j assume j: "j \<in> set is"
    with gt have "i < j" by simp
    moreover from Cons.prems(3) j have "j < off + length ys" by simp
    ultimately show "Suc i \<le> j \<and> j < Suc i + length ys'"
      using i ml by (simp add: ys'_def m_def)
  qed
  from Cons.prems(1,2) have "sorted is" "distinct is" by simp_all
  from Cons.IH [OF this bnd] have ih: "subseq (map (\<lambda>j. ys' ! (j - Suc i)) is) ys'" .
  have meq: "map (\<lambda>j. ys ! (j - off)) is = map (\<lambda>j. ys' ! (j - Suc i)) is"
  proof (rule map_cong [OF refl])
    fix j assume j: "j \<in> set is"
    with gt have ij: "i < j" by simp
    from bnd j have "j - Suc i < length ys'" by auto
    then have "ys' ! (j - Suc i) = ys ! (Suc m + (j - Suc i))"
      unfolding ys'_def by (simp add: nth_drop)
    also have "Suc m + (j - Suc i) = j - off" using ij i by (simp add: m_def)
    finally show "ys ! (j - off) = ys' ! (j - Suc i)" by simp
  qed
  from ih have "subseq (map (\<lambda>j. ys ! (j - off)) is) ys'" unfolding meq .
  then have "subseq (ys ! m # map (\<lambda>j. ys ! (j - off)) is) (ys ! m # ys')"
    by (rule subseq_Cons2)
  then have "subseq (ys ! m # map (\<lambda>j. ys ! (j - off)) is) (take m ys @ ys ! m # ys')"
    by (rule subseq_drop_many)
  with split show ?case by (simp add: m_def)
qed

lemma subseq_map_nth:
  assumes "sorted is" and "distinct is" and "\<forall>j\<in>set is. j < length ys"
  shows "subseq (map (\<lambda>j. ys ! j) is) ys"
  using subseq_map_nth_offset [of "is" 0 ys] assms by simp

lemma assign_scores_org_idx:
  "assign_scores sc idxs ctxs = Inr ctxs'
     \<Longrightarrow> map org_idx ctxs' = map org_idx ctxs"
proof (induction idxs arbitrary: ctxs)
  case Nil
  then show ?case by simp
next
  case (Cons idx idxs)
  from Cons.prems have il: "idx < length ctxs"
    and r: "assign_scores sc idxs (ctxs[idx := (ctxs ! idx)\<lparr>ctx_score := Some (sc ! idx)\<rparr>]) = Inr ctxs'"
    by (auto split: if_splits)
  from Cons.IH [OF r] have "map org_idx ctxs'
      = map org_idx (ctxs[idx := (ctxs ! idx)\<lparr>ctx_score := Some (sc ! idx)\<rparr>])" .
  also have "\<dots> = (map org_idx ctxs)[idx := map org_idx ctxs ! idx]"
    using il by (simp add: map_update)
  also have "\<dots> = map org_idx ctxs" by simp
  finally show ?case .
qed

lemma greedy_loop_prefix:
  "greedy_loop tk a ctxs T xs L acc = Inr (sel, len_final) \<Longrightarrow> \<exists>k. sel = acc @ take k xs"
proof (induction xs arbitrary: L acc)
  case Nil
  then show ?case by simp
next
  case (Cons x xs)
  show ?case
  proof (cases "sel = acc")
    case True
    then show ?thesis by (intro exI [of _ 0]) simp
  next
    case ne: False
    show ?thesis
    proof (cases "sel = acc @ [x]")
      case True
      then show ?thesis by (intro exI [of _ 1]) simp
    next
      case False
      with ne Cons.prems
      have "greedy_loop tk a ctxs T xs (L + rendered_len tk a ctxs x) (acc @ [x]) = Inr (sel, len_final)"
        by (auto simp: Let_def split: if_splits)
      from Cons.IH [OF this] obtain k where "sel = (acc @ [x]) @ take k xs" by blast
      then show ?thesis by (intro exI [of _ "Suc k"]) simp
    qed
  qed
qed

lemma select_indices_distinct:
  assumes "select_indices tk a ctxs T cs ctx_scores L = Inr (sc, idxs)"
  shows "distinct idxs"
proof (cases cs)
  case None
  with assms obtain len_final where
    "greedy_loop tk a ctxs T (rev (argsort ctx_scores)) L [] = Inr (idxs, len_final)"
    by (auto simp: select_indices_def bind_err_Inr_iff)
  from greedy_loop_prefix [OF this] obtain k where "idxs = take k (rev (argsort ctx_scores))"
    by auto
  then show ?thesis by (simp add: argsort_def distinct_take)
next
  case (Some t)
  with assms have "percentile_indices ctx_scores t = Inr (sc, idxs)"
    by (simp add: select_indices_def)
  then obtain k where "idxs = take k (rev (argsort sc))"
    by (auto simp: percentile_indices_def Let_def split: list.splits)
  then show ?thesis by (simp add: argsort_def distinct_take)
qed

lemma compress_contexts_order:
  assumes "\<not> do_sort_ctx a"
    and "compress_contexts tk a bs bt ctxs T cs q p = Inr (bs1, bt1, ctxs1, idxs)"
  shows "subseq (map org_idx ctxs1) (map org_idx ctxs)"
proof -
  from assms obtain ctx_scores prompt sc ctxs' where
    sel: "select_indices tk a ctxs T cs ctx_scores (int (length (gpt_encode tk prompt)))
            = Inr (sc, idxs)"
    and asg: "assign_scores sc idxs ctxs = Inr ctxs'"
    and tr: "take_rows ctxs' (sort idxs) = Inr ctxs1"
    unfolding compress_contexts_def Let_def
    by (auto simp: bind_err_Inr_iff)
  from tr have all: "\<forall>j\<in>set (sort idxs). j < length ctxs'"
    and c1: "ctxs1 = map (\<lambda>j. ctxs' ! j) (sort idxs)"
    by (auto simp: take_rows_def list_all_iff split: if_splits)
  have d: "distinct (sort idxs)" using select_indices_distinct [OF sel] by simp
  have "map org_idx ctxs1 = map (\<lambda>j. map org_idx ctxs' ! j) (sort idxs)"
    unfolding c1 using all by simp
  moreover have "subseq (map (\<lambda>j. map org_idx ctxs' ! j) (sort idxs)) (map org_idx ctxs')"
    using all d by (intro subseq_map_nth) simp_all
  ultimately show ?thesis using assign_scores_org_idx [OF asg] by simp
qed

lemma org_idx_update_text:
  "map org_idx (cs[i := (cs ! i)\<lparr>ctx_text := t\<rparr>]) = map org_idx cs"
proof (cases "i < length cs")
  case True
  then have "map org_idx (cs[i := (cs ! i)\<lparr>ctx_text := t\<rparr>])
      = (map org_idx cs)[i := map org_idx cs ! i]"
    by (simp add: map_update)
  then show ?thesis by simp
next
  case False
  then show ?thesis by (simp add: list_update_beyond)
qed

lemma drop_sentences_org_idx:
  "map org_idx (ctxs_now (drop_sentences tk d L c1 st idx rank i)) = map org_idx (ctxs_now st)"
proof -
  obtain r0 cur tot where dl: "drop_loop
                (\<lambda>sent_index. int (length (gpt_encode tk
                    (split_token_ctxs d ! i ! sent_index
                      @ take (length (pooled d ! i)) (sents_list d ! i) ! sent_index))))
                L (comp_len_per_ctx st ! rank) 0 (argsort (map fst (pooled d ! i))) 0
                (total_comp_len st)
              = (r0, cur, tot)"
    using prod_cases3 by blast
  show ?thesis
    unfolding drop_sentences_unfold [where ?c1.0 = c1 and idx = idx, OF dl refl refl refl]
    by (simp add: org_idx_update_text)
qed

lemma sent_step_org_idx:
  assumes "sent_step tk d L c1 st idx = Inr st'"
  shows "map org_idx (ctxs_now st') = map org_idx (ctxs_now st)"
proof -
  from assms obtain rank i where
    "st' = st\<lparr>ctx_removal_indices := ctx_removal_indices st @ [i]\<rparr>
     \<or> st' = keep_ctx d st idx i
     \<or> st' = drop_sentences tk d L c1 st idx rank i"
    by (auto simp: sent_step_def split: option.splits if_splits)
  then show ?thesis
    using drop_sentences_org_idx [of tk d L c1 st idx rank i]
    by (auto simp: keep_ctx_def)
qed

lemma sent_loop_org_idx:
  "sent_loop tk d L c1 st idxs = Inr st'
     \<Longrightarrow> map org_idx (ctxs_now st') = map org_idx (ctxs_now st)"
proof (induction idxs arbitrary: st)
  case Nil
  then show ?case by simp
next
  case (Cons idx idxs)
  from Cons.prems obtain st1 where s1: "sent_step tk d L c1 st idx = Inr st1"
    and l: "sent_loop tk d L c1 st1 idxs = Inr st'"
    by (auto simp: bind_err_Inr_iff)
  from Cons.IH [OF l] sent_step_org_idx [OF s1] show ?case by simp
qed

lemma subseq_remove_ctxs: "subseq (remove_ctxs removal cs) cs"
proof -
  have "subseq (map snd (filter (\<lambda>(i, c). i \<notin> set removal) (enumerate 0 cs)))
          (map snd (enumerate 0 cs))"
    by (intro subseq_map) simp
  then show ?thesis by (simp add: remove_ctxs_def map_snd_enumerate)
qed

lemma compress_sentences_order:
  assumes "compress_sentences tk bs bt ctxs idxs L ad q p pw c1 = Inr (bs', bt', ctxs')"
  shows "subseq (map org_idx ctxs') (map org_idx ctxs)"
proof -
  from assms obtain d budgets st where
    l: "sent_loop tk d L c1 (initial_state budgets ctxs) (rev idxs) = Inr st"
    and f: "finish_sentences st = Inr (bs', bt', ctxs')"
    unfolding compress_sentences_def by (auto simp: bind_err_Inr_iff)
  from f have o: "ctxs' = remove_ctxs (ctx_removal_indices st) (ctxs_now st)"
    by (auto simp: finish_sentences_def Let_def bind_err_Inr_iff)
  have "subseq (map org_idx ctxs') (map org_idx (ctxs_now st))"
    unfolding o by (intro subseq_map subseq_remove_ctxs)
  with sent_loop_org_idx [OF l] show ?thesis by (simp add: initial_state_def)
qed

lemma token_loop_org_idx:
  "token_loop tk ids st start zs = Inr outs \<Longrightarrow> map org_idx outs = map (\<lambda>z. org_idx (snd z)) zs"
proof (induction zs arbitrary: start outs)
  case Nil
  then show ?case by simp
next
  case (Cons z zs)
  obtain cum_len c where z: "z = (cum_len, c)" by (cases z)
  from Cons.prems z obtain kept more where
    m: "token_loop tk ids st cum_len zs = Inr more"
    and o: "outs = c\<lparr>ctx_text := collapse_spaces (tok_decode tk kept)\<rparr> # more"
    by (auto simp: bind_err_Inr_iff)
  from Cons.IH [OF m] o z show ?case by simp
qed

lemma map_snd_zip_take': "map snd (zip xs ys) = take (length xs) ys"
proof (induction xs arbitrary: ys)
  case Nil
  then show ?case by simp
next
  case (Cons x xs)
  then show ?case by (cases ys) simp_all
qed

lemma compress_tokens_order:
  assumes "compress_tokens bs bt ctxs lamb tk = Inr out"
  shows "map org_idx out = map org_idx ctxs"
proof -
  define lens where "lens = map length bs"
  from assms obtain target_len outs where
    tl: "token_loop tk (concat bt) (sorted_target_indices (concat bs) target_len) 0
           (zip (cum_len_list lens) ctxs) = Inr outs"
    and o: "out = outs @ drop (length lens) ctxs"
    unfolding compress_tokens_def Let_def lens_def
    by (auto simp: bind_err_Inr_iff split: if_splits)
  have "map org_idx outs = map org_idx (map snd (zip (cum_len_list lens) ctxs))"
    using token_loop_org_idx [OF tl] by simp
  also have "\<dots> = map org_idx (take (length lens) ctxs)"
    by (simp add: map_snd_zip_take' cum_len_list_def)
  finally have m: "map org_idx outs = map org_idx (take (length lens) ctxs)" .
  have "map org_idx out
      = map org_idx (take (length lens) ctxs) @ map org_idx (drop (length lens) ctxs)"
    unfolding o using m by simp
  also have "\<dots> = map org_idx (take (length lens) ctxs @ drop (length lens) ctxs)"
    by (rule map_append [symmetric])
  also have "\<dots> = map org_idx ctxs" by (simp only: append_take_drop_id)
  finally show ?thesis .
qed

text \<open>
  Claim C6. With \<^verbatim>\<open>do_sort_ctx\<close> off, the \<^verbatim>\<open>org_idx\<close> values of the passages
  that context selection returns are a subsequence, in the original order, of
  those of its input; and so are those of the passages after sentence
  selection and after token selection applied to them, whatever the other
  arguments of these stages: context selection sorts the selected indices,
  sentence selection only removes passages and rewrites texts, token selection
  only rewrites texts.
\<close>

theorem order_preserved:
  assumes "\<not> do_sort_ctx a"
    and "compress_contexts tk a bs bt ctxs ctx_comp_len cs q p = Inr (bs1, bt1, ctxs_sel, idxs)"
    and "compress_sentences tk2 bs2 bt2 ctxs_sel idxs2 sent_comp_len ad q2 p2 pw c1
           = Inr (bs3, bt3, ctxs_sent)"
    and "compress_tokens bs4 bt4 ctxs_sent token_lamb tk3 = Inr ctxs_tok"
  shows "subseq (map org_idx ctxs_sel) (map org_idx ctxs)
       \<and> subseq (map org_idx ctxs_sent) (map org_idx ctxs)
       \<and> subseq (map org_idx ctxs_tok) (map org_idx ctxs)"
proof -
  have s1: "subseq (map org_idx ctxs_sel) (map org_idx ctxs)"
    using assms(1,2) by (rule compress_contexts_order)
  have "subseq (map org_idx ctxs_sent) (map org_idx ctxs_sel)"
    using assms(3) by (rule compress_sentences_order)
  with s1 have s2: "subseq (map org_idx ctxs_sent) (map org_idx ctxs)"
    using subseq_order.order_trans by blast
  have "map org_idx ctxs_tok = map org_idx ctxs_sent"
    using assms(4) by (rule compress_tokens_order)
  with s1 s2 show ?thesis by simp
qed

theorem order_preserved_witness:
  "subseq (map org_idx
       [\<lparr>ctx_text = ''Dd. Ee.'', title = None, org_idx = 1, ctx_score = Some (Fin (41 / 18))\<rparr>,
        \<lparr>ctx_text = ''Aa. Bb. Cc.'', title = None, org_idx = 3, ctx_score = Some (Fin 5)\<rparr>])
     (map org_idx ctxs_run)
   \<and> subseq (map org_idx
       [\<lparr>ctx_text = '' Ee.'', title = None, org_idx = 1, ctx_score = Some (Fin (41 / 18))\<rparr>,
        \<lparr>ctx_text = ''Aa. Cc.'', title = None, org_idx = 3, ctx_score = Some (Fin 5)\<rparr>])
     (map org_idx ctxs_run)
   \<and> subseq (map org_idx
       [\<lparr>ctx_text = [CHR 0x22, CHR 0x23, CHR 0x24], title = None, org_idx = 1,
          ctx_score = Some (Fin (41 / 18))\<rparr>,
        \<lparr>ctx_text = [CHR 0x15, CHR 0x16, CHR 0x17], title = None, org_idx = 3,
          ctx_score = Some (Fin 5)\<rparr>])
     (map org_idx ctxs_run)"
proof -
  have h: "\<not> do_sort_ctx args_sent" by (simp add: args_sent_def)
  have e1: "compress_contexts char_env args_sent batch_scores_run batch_token_ids_run ctxs_run 200
              None ''q'' []
    = Inr ([replicate 11 2 @ [2, 2, 2, 4, 4, 4] @ [1, 0, 0],
            replicate 11 7 @ [5, 5, 5, 1, 1, 1, 3, 3, 3] @ [1, 0, 0]],
           [replicate 11 9 @ [31, 32, 33, 34, 35, 36] @ [1, 0, 0],
            replicate 11 9 @ [21, 22, 23, 24, 25, 26, 27, 28, 29] @ [1, 0, 0]],
           [\<lparr>ctx_text = ''Dd. Ee.'', title = None, org_idx = 1, ctx_score = Some (Fin (41 / 18))\<rparr>,
            \<lparr>ctx_text = ''Aa. Bb. Cc.'', title = None, org_idx = 3, ctx_score = Some (Fin 5)\<rparr>],
           [2, 0])"
    by code_simp
  have e2: "compress_sentences char_env
              [replicate 11 2 @ [2, 2, 2, 4, 4, 4] @ [1, 0, 0],
               replicate 11 7 @ [5, 5, 5, 1, 1, 1, 3, 3, 3] @ [1, 0, 0]]
              [replicate 11 9 @ [31, 32, 33, 34, 35, 36] @ [1, 0, 0],
               replicate 11 9 @ [21, 22, 23, 24, 25, 26, 27, 28, 29] @ [1, 0, 0]]
              [\<lparr>ctx_text = ''Dd. Ee.'', title = None, org_idx = 1, ctx_score = Some (Fin (41 / 18))\<rparr>,
               \<lparr>ctx_text = ''Aa. Bb. Cc.'', title = None, org_idx = 3, ctx_score = Some (Fin 5)\<rparr>]
              [2, 0] 6 False ''q'' [] 1 True
    = Inr ([[4, 4, 4], [5, 5, 5, 3, 3, 3]], [[34, 35, 36], [21, 22, 23, 27, 28, 29]],
           [\<lparr>ctx_text = '' Ee.'', title = None, org_idx = 1, ctx_score = Some (Fin (41 / 18))\<rparr>,
            \<lparr>ctx_text = ''Aa. Cc.'', title = None, org_idx = 3, ctx_score = Some (Fin 5)\<rparr>])"
    by code_simp
  have e3: "compress_tokens [[4, 4, 4], [5, 5, 5, 3, 3, 3]]
              [[34, 35, 36], [21, 22, 23, 27, 28, 29]]
              [\<lparr>ctx_text = '' Ee.'', title = None, org_idx = 1, ctx_score = Some (Fin (41 / 18))\<rparr>,
               \<lparr>ctx_text = ''Aa. Cc.'', title = None, org_idx = 3, ctx_score = Some (Fin 5)\<rparr>]
              (2/3) char_env
    = Inr [\<lparr>ctx_text = [CHR 0x22, CHR 0x23, CHR 0x24], title = None, org_idx = 1,
             ctx_score = Some (Fin (41 / 18))\<rparr>,
           \<lparr>ctx_text = [CHR 0x15, CHR 0x16, CHR 0x17], title = None, org_idx = 3,
             ctx_score = Some (Fin 5)\<rparr>]"
    by code_simp
  show ?thesis by (rule order_preserved [OF h e1 e2 e3])
qed

end
